theory Spec2Isabelle
  imports Main
begin

section \<open>Data model of the dependency resolver\<close>

text \<open>
  The development follows \<^verbatim>\<open>volatility/framework/configuration/depresolver.py\<close>.
  Capability keys and tokens are strings.  A capability value is what Python tests with
  \<^verbatim>\<open>isinstance(v, list)\<close>: either one token or a list of tokens.
\<close>

datatype cval = Single string | Many "string list"

text \<open>Values stored in the configuration; the resolver never inspects them.\<close>

datatype cfgval = IntV int | StrV string | BoolV bool

text \<open>The context: only its \<^verbatim>\<open>config\<close> mapping is read by the resolver.\<close>

record Context =
  config :: "string \<rightharpoonup> cfgval"

text \<open>
  Python exceptions that the modelled code can raise.  \<open>CheckFailed\<close> stands for what a
  failed \<^verbatim>\<open>_check_type\<close> or \<^verbatim>\<open>_check_class\<close> of the base class raises.
\<close>

datatype error =
    DependencyError string
  | AttributeError
  | TypeError
  | KeyError
  | ValidationError
  | CheckFailed

text \<open>
  A requirement.  \<open>constraints\<close> is \<open>None\<close> for a requirement that is not a
  \<^verbatim>\<open>ConstraintInterface\<close> (it has no such attribute) and \<open>Some\<close> of the
  dictionary's items, in iteration order, otherwise.  \<open>validate v c\<close> is the exception
  raised by \<^verbatim>\<open>requirement.validate(v, c)\<close>, or \<open>None\<close> when the call returns.
\<close>

record requirement =
  name :: string
  optional :: bool
  constraints :: "(string \<times> cval) list option"
  validate :: "cfgval \<Rightarrow> Context \<Rightarrow> error option"

text \<open>
  A provider class.  \<open>pid\<close> stands for the identity of the class object (Python hashes
  and compares classes by identity); \<open>provides\<close> holds the items of the class's
  \<^verbatim>\<open>provides\<close> dictionary; \<open>get_schema\<close> is the result of its
  \<^verbatim>\<open>get_schema()\<close>; \<open>fulfill\<close> is its callback, acting on the context.
\<close>

record provider =
  pid :: nat
  priority :: int
  provides :: "(string \<times> cval) list"
  get_schema :: "requirement list"
  fulfill :: "Context \<Rightarrow> requirement \<Rightarrow> string \<Rightarrow> Context"

section \<open>Capability matching\<close>

text \<open>\<^verbatim>\<open>if not isinstance(value, list): value = [value]\<close>\<close>

fun as_list :: "cval \<Rightarrow> string list" where
  "as_list (Single v) = [v]"
| "as_list (Many vs) = vs"

definition common_provision :: "cval \<Rightarrow> cval \<Rightarrow> string set" where
  "common_provision value1 value2 =
     (let set1 = set (as_list value1);
          set2 = set (as_list value2)
      in set1 \<inter> set2)"

text \<open>
  The loop of \<^verbatim>\<open>satisfies\<close> over \<^verbatim>\<open>requirement.constraints.items()\<close>, with the
  running value of \<^verbatim>\<open>satisfied\<close>; \<^verbatim>\<open>bool(s)\<close> of a set is \<open>s \<noteq> {}\<close>.
\<close>

fun satisfies_loop :: "provider \<Rightarrow> (string \<times> cval) list \<Rightarrow> bool \<Rightarrow> bool" where
  "satisfies_loop provider [] satisfied = satisfied"
| "satisfies_loop provider ((k, v) # items) satisfied =
     (case map_of (provides provider) k of
        Some pv \<Rightarrow> satisfies_loop provider items (satisfied \<and> common_provision pv v \<noteq> {})
      | None \<Rightarrow> satisfies_loop provider items satisfied)"

definition satisfies :: "provider \<Rightarrow> requirement \<Rightarrow> error + bool" where
  "satisfies provider requirement =
     (case constraints requirement of
        None \<Rightarrow> Inl AttributeError
      | Some items \<Rightarrow> Inr (satisfies_loop provider items True))"

section \<open>Properties of capability matching\<close>

lemma satisfies_loop_acc:
  "satisfies_loop p items acc = (acc \<and> satisfies_loop p items True)"
proof (induction items arbitrary: acc)
  case Nil
  show ?case by simp
next
  case (Cons kv items)
  obtain k v where kv: "kv = (k, v)" by (cases kv)
  show ?case
  proof (cases "map_of (provides p) k")
    case None
    with kv Cons.IH [of acc] show ?thesis by simp
  next
    case (Some pv)
    with kv Cons.IH [of "acc \<and> common_provision pv v \<noteq> {}"]
      Cons.IH [of "common_provision pv v \<noteq> {}"]
    show ?thesis by auto
  qed
qed

lemma satisfies_loop_iff:
  "satisfies_loop p items True =
     (\<forall>(k, v) \<in> set items. \<forall>pv. map_of (provides p) k = Some pv \<longrightarrow> common_provision pv v \<noteq> {})"
proof (induction items)
  case Nil
  show ?case by simp
next
  case (Cons kv items)
  obtain k v where kv: "kv = (k, v)" by (cases kv)
  show ?case
  proof (cases "map_of (provides p) k")
    case None
    with kv Cons.IH show ?thesis by simp
  next
    case (Some pv)
    have "satisfies_loop p (kv # items) True =
            (common_provision pv v \<noteq> {} \<and> satisfies_loop p items True)"
      using kv Some satisfies_loop_acc [of p items "common_provision pv v \<noteq> {}"] by simp
    with kv Some Cons.IH show ?thesis by auto
  qed
qed

text \<open>
  C1.  For a requirement that carries constraints, \<open>satisfies\<close> returns true exactly when
  every constraint item whose key the provider declares overlaps the provider's value for
  that key (single values read as one-element sets).  A constraint on a key that the
  provider does not declare is skipped and does not change the result, and a requirement
  with an empty constraints dictionary is satisfied by every provider.
\<close>

theorem satisfies_iff_overlap:
  "(constraints r = Some items \<longrightarrow>
      satisfies p r =
        Inr (\<forall>(k, v) \<in> set items.
               \<forall>pv. map_of (provides p) k = Some pv \<longrightarrow>
                 set (as_list pv) \<inter> set (as_list v) \<noteq> {}))
   \<and> (map_of (provides p) k' = None \<longrightarrow>
        satisfies p (r\<lparr>constraints := Some ((k', v') # items)\<rparr>) =
        satisfies p (r\<lparr>constraints := Some items\<rparr>))
   \<and> (constraints r = Some [] \<longrightarrow> satisfies p r = Inr True)"
  using satisfies_loop_iff [of p items]
  by (simp add: satisfies_def common_provision_def)

text \<open>A provider and a requirement used to exercise the statements on concrete data.\<close>

definition P_linux_mac :: provider where
  "P_linux_mac =
     \<lparr>pid = 1, priority = 10, provides = [(''os'', Many [''linux'', ''mac''])],
      get_schema = [], fulfill = (\<lambda>c r p. c)\<rparr>"

definition R_os_linux :: requirement where
  "R_os_linux =
     \<lparr>name = ''layer'', optional = False, constraints = Some [(''os'', Single ''linux'')],
      validate = (\<lambda>v c. None)\<rparr>"

theorem satisfies_iff_overlap_witness:
  "satisfies P_linux_mac R_os_linux = Inr True
   \<and> satisfies P_linux_mac
        (R_os_linux\<lparr>constraints := Some [(''arch'', Single ''x64''), (''os'', Single ''windows'')]\<rparr>) =
      satisfies P_linux_mac (R_os_linux\<lparr>constraints := Some [(''os'', Single ''windows'')]\<rparr>)
   \<and> satisfies P_linux_mac
        (R_os_linux\<lparr>constraints := Some [(''os'', Single ''windows'')]\<rparr>) = Inr False
   \<and> satisfies P_linux_mac (R_os_linux\<lparr>constraints := Some []\<rparr>) = Inr True"
  using
    satisfies_iff_overlap [where r = R_os_linux and items = "[(''os'', Single ''linux'')]"
      and p = P_linux_mac and k' = "''arch''" and v' = "Single ''x64''"]
    satisfies_iff_overlap [where r = "R_os_linux\<lparr>constraints := Some [(''os'', Single ''windows'')]\<rparr>"
      and items = "[(''os'', Single ''windows'')]"
      and p = P_linux_mac and k' = "''arch''" and v' = "Single ''x64''"]
    satisfies_iff_overlap [where r = "R_os_linux\<lparr>constraints := Some []\<rparr>" and items = "[]"
      and p = P_linux_mac and k' = "''arch''" and v' = "Single ''x64''"]
  by (simp add: P_linux_mac_def R_os_linux_def)

section \<open>The requirement tree\<close>

text \<open>
  The three node classes.  \<open>RequirementTreeReq\<close> is a leaf holding a requirement,
  \<open>RequirementTreeChoice\<close> holds a requirement and the items of its ordered dictionary
  of candidates (provider to subtree, in insertion order), \<open>RequirementTreeList\<close> holds
  the list of children.
\<close>

datatype tree =
    RequirementTreeReq requirement
  | RequirementTreeChoice requirement "(provider \<times> tree) list"
  | RequirementTreeList "tree list"

type_synonym candidates = "(provider \<times> tree) list"

text \<open>
  \<^verbatim>\<open>candidates[potential] = candidate\<close> on an \<^verbatim>\<open>OrderedDict\<close>: an existing key keeps
  its position and gets the new value, a new key is appended.
\<close>

fun odict_set :: "candidates \<Rightarrow> provider \<Rightarrow> tree \<Rightarrow> candidates" where
  "odict_set [] k v = [(k, v)]"
| "odict_set ((k', v') # kvs) k v =
     (if k' = k then (k, v) # kvs else (k', v') # odict_set kvs k v)"

section \<open>The provider registry\<close>

text \<open>
  The resolver object: \<open>self_provides\<close> is the dictionary \<^verbatim>\<open>self.provides\<close> (capability
  key to set of tokens), \<open>providers_cache\<close> the sorted list of providers.
\<close>

record DependencyResolver =
  self_provides :: "string \<rightharpoonup> string set"
  providers_cache :: "provider list"

text \<open>\<^verbatim>\<open>self.provides.get(k, set())\<close>\<close>

definition get_or_empty :: "(string \<rightharpoonup> string set) \<Rightarrow> string \<Rightarrow> string set" where
  "get_or_empty m k = (case m k of None \<Rightarrow> {} | Some s \<Rightarrow> s)"

text \<open>
  The inner loop of \<^verbatim>\<open>_build_caches\<close> over \<^verbatim>\<open>provider.provides.items()\<close>.  The state is
  the pair of \<^verbatim>\<open>self.provides\<close> and the set \<^verbatim>\<open>cache\<close>.  As in the source, the
  statement \<^verbatim>\<open>cache.add(provider)\<close> belongs to the body of this inner loop.
\<close>

fun build_caches_items ::
  "provider \<Rightarrow> (string \<times> cval) list \<Rightarrow> (string \<rightharpoonup> string set) \<times> provider set \<Rightarrow>
   (string \<rightharpoonup> string set) \<times> provider set" where
  "build_caches_items provider [] (idx, cache) = (idx, cache)"
| "build_caches_items provider ((k, v) # items) (idx, cache) =
     (let new_v = (case v of
                     Single x \<Rightarrow> insert x (get_or_empty idx k)
                   | Many xs \<Rightarrow> get_or_empty idx k \<union> set xs)
      in build_caches_items provider items (idx(k \<mapsto> new_v), insert provider cache))"

text \<open>The outer loop over \<^verbatim>\<open>framework.class_subclasses(clazz)\<close>.\<close>

fun build_caches_loop ::
  "provider list \<Rightarrow> (string \<rightharpoonup> string set) \<times> provider set \<Rightarrow>
   (string \<rightharpoonup> string set) \<times> provider set" where
  "build_caches_loop [] st = st"
| "build_caches_loop (provider # rest) st =
     build_caches_loop rest (build_caches_items provider (provides provider) st)"

definition build_caches :: "provider list \<Rightarrow> (string \<rightharpoonup> string set) \<times> provider set" where
  "build_caches subclasses = build_caches_loop subclasses (Map.empty, {})"

text \<open>
  The constructor.  \<open>subclasses\<close> is what \<^verbatim>\<open>framework.class_subclasses\<close> enumerates.
  \<^verbatim>\<open>list(cache)\<close> lists a Python set in an order the language does not fix, so that list
  is the second argument \<open>listing\<close>; statements about the constructor take it to be a
  duplicate-free enumeration of the returned set.  \<^verbatim>\<open>sorted\<close> is stable, as \<open>sort_key\<close>.
\<close>

definition DependencyResolver_init :: "provider list \<Rightarrow> provider list \<Rightarrow> DependencyResolver" where
  "DependencyResolver_init subclasses listing =
     \<lparr>self_provides = fst (build_caches subclasses),
      providers_cache = sort_key (\<lambda>x. - priority x) listing\<rparr>"

section \<open>Building the tree\<close>

text \<open>
  Modelled from the spec: \<^verbatim>\<open>repr(subreq)\<close> is defined by the requirement classes, which
  are not part of the source at hand; the error is said to name the requirement, so the
  requirement's name stands for its printed form.
\<close>

definition repr_requirement :: "requirement \<Rightarrow> string" where
  "repr_requirement r = name r"

definition no_solutions :: "requirement \<Rightarrow> error" where
  "no_solutions subreq =
     DependencyError (''No solutions to fulfill requirement '' @ repr_requirement subreq)"

text \<open>
  \<^verbatim>\<open>build_tree\<close> recurses through the providers' own schemas and the source has no guard
  against cycles, so the model carries a bound on the depth of nested \<^verbatim>\<open>build_tree\<close>
  calls: \<open>None\<close> means that the bound was reached, \<open>Some (Inl e)\<close> that exception \<open>e\<close>
  was raised, \<open>Some (Inr t)\<close> that \<open>t\<close> was returned.  The first argument of
  \<open>build_tree\<close> after the bound and the resolver is \<^verbatim>\<open>configurable.get_schema()\<close>.
  \<open>build_schema\<close> is the loop over the schema with the list \<^verbatim>\<open>deptree\<close> built so far;
  \<open>build_candidates\<close> is the loop over \<^verbatim>\<open>self.providers_cache\<close> with the current
  \<^verbatim>\<open>candidates\<close> and \<^verbatim>\<open>satisfiable\<close>.  Only \<^verbatim>\<open>DependencyError\<close> is caught there.
\<close>

fun build_tree :: "nat \<Rightarrow> DependencyResolver \<Rightarrow> requirement list \<Rightarrow> (error + tree) option"
and build_schema ::
  "nat \<Rightarrow> DependencyResolver \<Rightarrow> requirement list \<Rightarrow> tree list \<Rightarrow> (error + tree) option"
and build_candidates ::
  "nat \<Rightarrow> DependencyResolver \<Rightarrow> provider list \<Rightarrow> requirement \<Rightarrow> candidates \<times> bool \<Rightarrow>
   (error + candidates \<times> bool) option"
where
  "build_tree 0 self schema = None"
| "build_tree (Suc n) self schema = build_schema n self schema []"
| "build_schema n self [] deptree = Some (Inr (RequirementTreeList deptree))"
| "build_schema n self (subreq # rest) deptree =
     (case constraints subreq of
        None \<Rightarrow> build_schema n self rest (deptree @ [RequirementTreeReq subreq])
      | Some _ \<Rightarrow>
          (case build_candidates n self (providers_cache self) subreq ([], False) of
             None \<Rightarrow> None
           | Some (Inl e) \<Rightarrow> Some (Inl e)
           | Some (Inr (candidates, satisfiable)) \<Rightarrow>
               if \<not> satisfiable then Some (Inl (no_solutions subreq))
               else if candidates \<noteq> []
                 then build_schema n self rest
                        (deptree @ [RequirementTreeChoice subreq candidates])
                 else build_schema n self rest deptree))"
| "build_candidates n self [] subreq (candidates, satisfiable) =
     Some (Inr (candidates, satisfiable))"
| "build_candidates n self (potential # ps) subreq (candidates, satisfiable) =
     (case satisfies potential subreq of
        Inl e \<Rightarrow> Some (Inl e)
      | Inr False \<Rightarrow> build_candidates n self ps subreq (candidates, satisfiable)
      | Inr True \<Rightarrow>
          (case build_tree n self (get_schema potential) of
             None \<Rightarrow> None
           | Some (Inl (DependencyError m)) \<Rightarrow>
               build_candidates n self ps subreq (candidates, satisfiable)
           | Some (Inl e) \<Rightarrow> Some (Inl e)
           | Some (Inr candidate) \<Rightarrow>
               build_candidates n self ps subreq
                 (odict_set candidates potential candidate, True)))"

section \<open>Properties of the builder\<close>

text \<open>Every choice node of a tree has at least one candidate.\<close>

fun choices_nonempty :: "tree \<Rightarrow> bool" where
  "choices_nonempty (RequirementTreeReq r) = True"
| "choices_nonempty (RequirementTreeChoice r cands) =
     (cands \<noteq> [] \<and> (\<forall>t\<in>snd ` set cands. choices_nonempty t))"
| "choices_nonempty (RequirementTreeList children) = (\<forall>t\<in>set children. choices_nonempty t)"

text \<open>
  No candidate succeeds for \<open>r\<close> at depth \<open>n\<close>: every provider of the cache that satisfies
  \<open>r\<close> has a build of its own schema that raises \<^verbatim>\<open>DependencyError\<close>.  This holds in
  particular when no provider satisfies \<open>r\<close>.
\<close>

definition no_candidate_succeeds :: "nat \<Rightarrow> DependencyResolver \<Rightarrow> requirement \<Rightarrow> bool" where
  "no_candidate_succeeds n self r =
     (\<forall>p\<in>set (providers_cache self). satisfies p r = Inr True \<longrightarrow>
        (case build_tree n self (get_schema p) of
           Some (Inl (DependencyError m)) \<Rightarrow> True
         | _ \<Rightarrow> False))"

section \<open>Example registry\<close>

text \<open>
  Two providers that both declare \<open>os\<close> and \<open>arch\<close>.  \<open>P_a\<close> itself needs a
  translator for architecture \<open>z\<close>, which nobody provides; \<open>P_b\<close> needs a plain offset.
\<close>

definition R_arch_z :: requirement where
  "R_arch_z =
     \<lparr>name = ''translator'', optional = True, constraints = Some [(''arch'', Single ''z'')],
      validate = (\<lambda>v c. None)\<rparr>"

definition R_arch_a :: requirement where
  "R_arch_a =
     \<lparr>name = ''memory'', optional = True, constraints = Some [(''arch'', Many [''a''])],
      validate = (\<lambda>v c. None)\<rparr>"

definition R_plain :: requirement where
  "R_plain =
     \<lparr>name = ''offset'', optional = False, constraints = None,
      validate = (\<lambda>v c. case v of IntV i \<Rightarrow> None | _ \<Rightarrow> Some TypeError)\<rparr>"

definition P_a :: provider where
  "P_a =
     \<lparr>pid = 3, priority = 20,
      provides = [(''os'', Single ''linux''), (''arch'', Single ''a'')],
      get_schema = [R_arch_z], fulfill = (\<lambda>c r p. c)\<rparr>"

definition P_b :: provider where
  "P_b =
     \<lparr>pid = 4, priority = 10,
      provides = [(''os'', Single ''linux''), (''arch'', Single ''b'')],
      get_schema = [R_plain], fulfill = (\<lambda>c r p. c\<lparr>config := (config c)(p \<mapsto> StrV ''b'')\<rparr>)\<rparr>"

definition registry_ab :: DependencyResolver where
  "registry_ab = DependencyResolver_init [P_b, P_a] [P_b, P_a]"

lemmas ex_defs = R_arch_z_def R_arch_a_def R_plain_def P_a_def P_b_def registry_ab_def
  DependencyResolver_init_def R_os_linux_def satisfies_def common_provision_def no_solutions_def repr_requirement_def

lemma satisfies_constrained:
  "constraints r \<noteq> None \<Longrightarrow> \<exists>b. satisfies p r = Inr b"
  by (auto simp: satisfies_def)

lemma odict_set_not_Nil: "odict_set c k v \<noteq> []"
  by (cases c) (auto split: if_splits)

lemma odict_set_fresh: "k \<notin> fst ` set c \<Longrightarrow> odict_set c k v = c @ [(k, v)]"
  by (induction c) auto

lemma odict_set_values: "snd ` set (odict_set c k v) \<subseteq> insert v (snd ` set c)"
  by (induction c) (fastforce split: if_splits)+

lemma build_candidates_cases:
  assumes "constraints r \<noteq> None"
    and "build_candidates n self (p # ps) r (c, s) = Some (Inr res)"
  obtains
    (skip) "satisfies p r = Inr False" "build_candidates n self ps r (c, s) = Some (Inr res)"
  | (fail) m where "satisfies p r = Inr True"
      "build_tree n self (get_schema p) = Some (Inl (DependencyError m))"
      "build_candidates n self ps r (c, s) = Some (Inr res)"
  | (ok) t where "satisfies p r = Inr True"
      "build_tree n self (get_schema p) = Some (Inr t)"
      "build_candidates n self ps r (odict_set c p t, True) = Some (Inr res)"
  using assms
  by (auto split: sum.splits bool.splits option.splits error.splits)

lemma build_candidates_satisfiable:
  assumes "constraints r \<noteq> None"
    and "build_candidates n self ps r (c, s) = Some (Inr (c', s'))"
  shows "s' = (s \<or> (\<exists>p\<in>set ps. satisfies p r = Inr True \<and>
                  (\<exists>t. build_tree n self (get_schema p) = Some (Inr t))))"
  using assms(2)
proof (induction ps arbitrary: c s)
  case Nil
  then show ?case by simp
next
  case (Cons p ps)
  from assms(1) Cons.prems show ?case
  proof (cases rule: build_candidates_cases)
    case skip
    with Cons.IH [of c s] show ?thesis by auto
  next
    case (fail m)
    with Cons.IH [of c s] show ?thesis by auto
  next
    case (ok t)
    with Cons.IH [of "odict_set c p t" True] show ?thesis by auto
  qed
qed

lemma build_candidates_decided:
  assumes "constraints r \<noteq> None"
    and "build_candidates n self ps r (c, s) = Some (Inr (c', s'))"
    and "p \<in> set ps" and "satisfies p r = Inr True"
  shows "(\<exists>t. build_tree n self (get_schema p) = Some (Inr t)) \<or>
         (\<exists>m. build_tree n self (get_schema p) = Some (Inl (DependencyError m)))"
  using assms(2,3)
proof (induction ps arbitrary: c s)
  case Nil
  then show ?case by simp
next
  case (Cons q ps)
  from assms(1) Cons.prems(1) show ?case
  proof (cases rule: build_candidates_cases)
    case skip
    with Cons.IH [of c s] Cons.prems(2) assms(4) show ?thesis by auto
  next
    case (fail m)
    with Cons.IH [of c s] Cons.prems(2) show ?thesis by auto
  next
    case (ok t)
    with Cons.IH [of "odict_set c q t" True] Cons.prems(2) show ?thesis by auto
  qed
qed

lemma build_candidates_nonempty:
  assumes "constraints r \<noteq> None"
    and "build_candidates n self ps r (c, s) = Some (Inr (c', s'))"
    and "s \<longrightarrow> c \<noteq> []"
  shows "s' \<longrightarrow> c' \<noteq> []"
  using assms(2,3)
proof (induction ps arbitrary: c s)
  case Nil
  then show ?case by simp
next
  case (Cons p ps)
  from assms(1) Cons.prems(1) show ?case
  proof (cases rule: build_candidates_cases)
    case skip
    with Cons.IH [of c s] Cons.prems(2) show ?thesis by auto
  next
    case (fail m)
    with Cons.IH [of c s] Cons.prems(2) show ?thesis by auto
  next
    case (ok t)
    with Cons.IH [of "odict_set c p t" True] odict_set_not_Nil [of c p t] show ?thesis by auto
  qed
qed

lemma build_candidates_values:
  assumes "constraints r \<noteq> None"
    and "build_candidates n self ps r (c, s) = Some (Inr (c', s'))"
  shows "snd ` set c' \<subseteq> snd ` set c \<union>
           {t. \<exists>p\<in>set ps. build_tree n self (get_schema p) = Some (Inr t)}"
  using assms(2)
proof (induction ps arbitrary: c s)
  case Nil
  then show ?case by simp
next
  case (Cons p ps)
  from assms(1) Cons.prems(1) show ?case
  proof (cases rule: build_candidates_cases)
    case skip
    with Cons.IH [of c s] show ?thesis by auto
  next
    case (fail m)
    with Cons.IH [of c s] show ?thesis by auto
  next
    case (ok t)
    from Cons.IH [OF ok(3)] odict_set_values [of c p t] ok(2)
    show ?thesis by auto
  qed
qed

lemma build_candidates_all_fail:
  assumes "\<forall>p\<in>set ps. satisfies p r = Inr True \<longrightarrow>
             (\<exists>m. build_tree n self (get_schema p) = Some (Inl (DependencyError m)))"
    and "constraints r \<noteq> None"
  shows "build_candidates n self ps r (c, s) = Some (Inr (c, s))"
  using assms(1)
proof (induction ps)
  case Nil
  show ?case by simp
next
  case (Cons p ps)
  obtain b where b: "satisfies p r = Inr b"
    using satisfies_constrained [OF assms(2)] by blast
  show ?case
  proof (cases b)
    case True
    with b Cons.prems obtain m where
      "build_tree n self (get_schema p) = Some (Inl (DependencyError m))" by auto
    with b True Cons show ?thesis by simp
  next
    case False
    with b Cons show ?thesis by simp
  qed
qed

lemma build_candidates_error:
  assumes "constraints r \<noteq> None"
    and H: "\<forall>schema e. build_tree n self schema = Some (Inl e) \<longrightarrow> (\<exists>m. e = DependencyError m)"
  shows "build_candidates n self ps r (c, s) \<noteq> Some (Inl e)"
proof (induction ps arbitrary: c s)
  case Nil
  show ?case by simp
next
  case (Cons p ps)
  obtain b where b: "satisfies p r = Inr b"
    using satisfies_constrained [OF assms(1)] by blast
  show ?case
  proof (cases b)
    case False
    with b Cons show ?thesis by simp
  next
    case True
    show ?thesis
    proof (cases "build_tree n self (get_schema p)")
      case None
      with b True show ?thesis by simp
    next
      case (Some res)
      show ?thesis
      proof (cases res)
        case (Inl e')
        with Some H obtain m where "e' = DependencyError m" by blast
        with Inl Some b True Cons show ?thesis by simp
      next
        case (Inr t)
        with Some b True Cons show ?thesis by simp
      qed
    qed
  qed
qed


text \<open>The loop over the schema.\<close>

lemma build_schema_returns_List:
  "build_schema n self schema d = Some (Inr t) \<Longrightarrow> \<exists>d'. t = RequirementTreeList d'"
  by (induction schema arbitrary: d)
     (auto split: option.splits sum.splits if_splits)

lemma build_schema_append:
  "build_schema n self pre d = Some (Inr (RequirementTreeList d')) \<Longrightarrow>
   build_schema n self (pre @ rest) d = build_schema n self rest d'"
  by (induction pre arbitrary: d)
     (auto split: option.splits sum.splits if_splits)

lemma build_schema_error:
  assumes H: "\<forall>schema e. build_tree n self schema = Some (Inl e) \<longrightarrow> (\<exists>m. e = DependencyError m)"
    and "build_schema n self schema d = Some (Inl e)"
  shows "\<exists>r\<in>set schema. constraints r \<noteq> None \<and> e = no_solutions r \<and>
           (\<forall>p\<in>set (providers_cache self). satisfies p r = Inr True \<longrightarrow>
              (\<exists>m. build_tree n self (get_schema p) = Some (Inl (DependencyError m))))"
  using assms(2)
proof (induction schema arbitrary: d)
  case Nil
  then show ?case by simp
next
  case (Cons r rest)
  show ?case
  proof (cases "constraints r")
    case None
    with Cons.prems Cons.IH [of "d @ [RequirementTreeReq r]"] show ?thesis by auto
  next
    case (Some items)
    then have cr: "constraints r \<noteq> None" by simp
    show ?thesis
    proof (cases "build_candidates n self (providers_cache self) r ([], False)")
      case None
      with Some Cons.prems show ?thesis by simp
    next
      case bc: (Some res)
      show ?thesis
      proof (cases res)
        case (Inl e')
        with bc build_candidates_error [OF cr H, where ps = "providers_cache self"
            and c = "[]" and s = False and e = e']
        show ?thesis by simp
      next
        case (Inr cs)
        obtain c' s' where cs: "cs = (c', s')" by (cases cs)
        note run = bc [unfolded Inr cs]
        show ?thesis
        proof (cases s')
          case False
          have e: "e = no_solutions r"
            using Cons.prems Some run False by simp
          have "\<forall>p\<in>set (providers_cache self). satisfies p r = Inr True \<longrightarrow>
                  (\<exists>m. build_tree n self (get_schema p) = Some (Inl (DependencyError m)))"
          proof (intro ballI impI)
            fix p assume p: "p \<in> set (providers_cache self)" "satisfies p r = Inr True"
            from build_candidates_satisfiable [OF cr run] False p
            have "\<not> (\<exists>t. build_tree n self (get_schema p) = Some (Inr t))" by blast
            with build_candidates_decided [OF cr run p]
            show "\<exists>m. build_tree n self (get_schema p) = Some (Inl (DependencyError m))"
              by blast
          qed
          with e cr show ?thesis by auto
        next
          case True
          with Cons.prems Some run
          have "build_schema n self rest (d @ [RequirementTreeChoice r c']) = Some (Inl e)
                \<or> build_schema n self rest d = Some (Inl e)"
            by (simp split: if_splits)
          with Cons.IH show ?thesis by auto
        qed
      qed
    qed
  qed
qed

lemma build_schema_success:
  assumes "build_schema n self schema d = Some (Inr t)"
    and "r \<in> set schema" and "constraints r \<noteq> None"
  shows "\<exists>p\<in>set (providers_cache self). satisfies p r = Inr True \<and>
           (\<exists>t'. build_tree n self (get_schema p) = Some (Inr t'))"
  using assms(1,2)
proof (induction schema arbitrary: d)
  case Nil
  then show ?case by simp
next
  case (Cons q rest)
  show ?case
  proof (cases "constraints q")
    case None
    with assms(3) have "q \<noteq> r" by auto
    with None Cons.prems Cons.IH [of "d @ [RequirementTreeReq q]"] show ?thesis by auto
  next
    case (Some items)
    then have cq: "constraints q \<noteq> None" by simp
    from Some Cons.prems(1) obtain c' s' where
      run: "build_candidates n self (providers_cache self) q ([], False) = Some (Inr (c', s'))"
      by (auto split: option.splits sum.splits)
    from Some Cons.prems(1) run have s': "s'"
      by (auto split: if_splits)
    from Some Cons.prems(1) run s'
    have rest: "build_schema n self rest (d @ [RequirementTreeChoice q c']) = Some (Inr t)
                \<or> build_schema n self rest d = Some (Inr t)"
      by (simp split: if_splits)
    show ?thesis
    proof (cases "r = q")
      case True
      with build_candidates_satisfiable [OF cq run] s' show ?thesis by simp
    next
      case False
      with Cons.prems(2) have "r \<in> set rest" by simp
      with rest Cons.IH show ?thesis by blast
    qed
  qed
qed

text \<open>The only exception \<open>build_tree\<close> raises is \<^verbatim>\<open>DependencyError\<close>.\<close>

lemma build_tree_raises_DependencyError:
  "build_tree n self schema = Some (Inl e) \<Longrightarrow> \<exists>m. e = DependencyError m"
proof (induction n arbitrary: schema e)
  case 0
  then show ?case by simp
next
  case (Suc n)
  from Suc.prems have bs: "build_schema n self schema [] = Some (Inl e)" by simp
  have "\<exists>r\<in>set schema. constraints r \<noteq> None \<and> e = no_solutions r \<and>
           (\<forall>p\<in>set (providers_cache self). satisfies p r = Inr True \<longrightarrow>
              (\<exists>m. build_tree n self (get_schema p) = Some (Inl (DependencyError m))))"
  proof (rule build_schema_error)
    show "\<forall>schema e. build_tree n self schema = Some (Inl e) \<longrightarrow> (\<exists>m. e = DependencyError m)"
      using Suc.IH by blast
    show "build_schema n self schema [] = Some (Inl e)" by (rule bs)
  qed
  then show ?case by (auto simp: no_solutions_def)
qed

lemma no_candidate_succeeds_iff:
  "no_candidate_succeeds n self r =
     (\<forall>p\<in>set (providers_cache self). satisfies p r = Inr True \<longrightarrow>
        (\<exists>m. build_tree n self (get_schema p) = Some (Inl (DependencyError m))))"
proof -
  have "(case x of Some (Inl (DependencyError m)) \<Rightarrow> True | _ \<Rightarrow> False) =
          (\<exists>m. x = Some (Inl (DependencyError m)))" for x :: "(error + tree) option"
    by (auto split: option.splits sum.splits error.splits)
  then show ?thesis unfolding no_candidate_succeeds_def by simp
qed

text \<open>
  C2.  Whenever \<open>build_tree\<close> finishes, it has raised an exception exactly when the schema
  holds a constrained requirement for which no candidate succeeds (no provider satisfies
  it, or every satisfying provider's own build raised \<^verbatim>\<open>DependencyError\<close>); the
  exception is then the \<^verbatim>\<open>DependencyError\<close> naming such a requirement of this very
  schema, not the error of a deeper build, and nothing depends on \<open>optional\<close>.
  Conversely, when the requirements before \<open>r'\<close> build and no candidate succeeds for the
  constrained requirement \<open>r'\<close>, the call raises the error naming \<open>r'\<close>.
\<close>

theorem build_tree_DependencyError:
  "(build_tree (Suc n) self schema = Some res \<longrightarrow>
      ((\<exists>e. res = Inl e) \<longleftrightarrow>
         (\<exists>r\<in>set schema. constraints r \<noteq> None \<and> no_candidate_succeeds n self r))
    \<and> (\<forall>e. res = Inl e \<longrightarrow>
         (\<exists>r\<in>set schema. constraints r \<noteq> None \<and> no_candidate_succeeds n self r \<and>
            e = no_solutions r)))
   \<and> (build_tree (Suc n) self pre = Some (Inr t) \<and> constraints r' \<noteq> None \<and>
        no_candidate_succeeds n self r' \<longrightarrow>
        build_tree (Suc n) self (pre @ r' # post) = Some (Inl (no_solutions r')))"
proof (intro conjI impI)
  assume run: "build_tree (Suc n) self schema = Some res"
  have H: "\<forall>schema e. build_tree n self schema = Some (Inl e) \<longrightarrow> (\<exists>m. e = DependencyError m)"
    using build_tree_raises_DependencyError by blast
  have raised: "\<exists>r\<in>set schema. constraints r \<noteq> None \<and> no_candidate_succeeds n self r \<and>
                  e = no_solutions r" if "res = Inl e" for e
  proof -
    from run that have "build_schema n self schema [] = Some (Inl e)" by simp
    from build_schema_error [OF H this] show ?thesis
      unfolding no_candidate_succeeds_iff by blast
  qed
  have returned: "\<not> no_candidate_succeeds n self r"
    if "res = Inr t'" "r \<in> set schema" "constraints r \<noteq> None" for t' r
  proof -
    from run that(1) have "build_schema n self schema [] = Some (Inr t')" by simp
    from build_schema_success [OF this that(2,3)] show ?thesis
      by (auto simp: no_candidate_succeeds_iff)
  qed
  show "(\<exists>e. res = Inl e) \<longleftrightarrow>
          (\<exists>r\<in>set schema. constraints r \<noteq> None \<and> no_candidate_succeeds n self r)"
  proof (cases res)
    case (Inl e)
    with raised [of e] show ?thesis by blast
  next
    case (Inr t')
    with returned [of t'] show ?thesis by blast
  qed
  show "\<forall>e. res = Inl e \<longrightarrow>
          (\<exists>r\<in>set schema. constraints r \<noteq> None \<and> no_candidate_succeeds n self r \<and>
             e = no_solutions r)"
    using raised by blast
next
  assume a: "build_tree (Suc n) self pre = Some (Inr t) \<and> constraints r' \<noteq> None \<and>
             no_candidate_succeeds n self r'"
  then have pre: "build_schema n self pre [] = Some (Inr t)" by simp
  then obtain d where t: "t = RequirementTreeList d"
    using build_schema_returns_List by blast
  from a have nc: "\<forall>p\<in>set (providers_cache self). satisfies p r' = Inr True \<longrightarrow>
        (\<exists>m. build_tree n self (get_schema p) = Some (Inl (DependencyError m)))"
    by (simp add: no_candidate_succeeds_iff)
  from a have cr: "constraints r' \<noteq> None" by simp
  have "build_candidates n self (providers_cache self) r' ([], False) = Some (Inr ([], False))"
    by (rule build_candidates_all_fail [OF nc cr])
  with cr have "build_schema n self (r' # post) d = Some (Inl (no_solutions r'))"
    by auto
  with build_schema_append [OF pre [unfolded t], of "r' # post"]
  show "build_tree (Suc n) self (pre @ r' # post) = Some (Inl (no_solutions r'))"
    by simp
qed

theorem build_tree_DependencyError_witness:
  "build_tree (Suc (Suc 0)) registry_ab [R_plain, R_arch_a, R_os_linux] =
     Some (Inl (no_solutions R_arch_a))
   \<and> optional R_arch_a
   \<and> satisfies P_a R_arch_a = Inr True
   \<and> build_tree (Suc 0) registry_ab (get_schema P_a) = Some (Inl (no_solutions R_arch_z))
   \<and> no_candidate_succeeds (Suc 0) registry_ab R_arch_a
   \<and> no_solutions R_arch_z \<noteq> no_solutions R_arch_a"
  using build_tree_DependencyError [where n = "Suc 0" and self = registry_ab
      and schema = "[R_plain, R_arch_a, R_os_linux]" and res = "Inl (no_solutions R_arch_a)"
      and pre = "[R_plain]" and t = "RequirementTreeList [RequirementTreeReq R_plain]"
      and r' = R_arch_a and post = "[R_os_linux]"]
  by (simp add: ex_defs no_candidate_succeeds_def)


lemma build_schema_choices_nonempty:
  assumes H: "\<forall>schema t. build_tree n self schema = Some (Inr t) \<longrightarrow> choices_nonempty t"
    and "build_schema n self schema d = Some (Inr t)"
    and "\<forall>x\<in>set d. choices_nonempty x"
  shows "choices_nonempty t"
  using assms(2,3)
proof (induction schema arbitrary: d)
  case Nil
  then show ?case by auto
next
  case (Cons r rest)
  show ?case
  proof (cases "constraints r")
    case None
    with Cons.prems Cons.IH [of "d @ [RequirementTreeReq r]"] show ?thesis by auto
  next
    case (Some items)
    then have cr: "constraints r \<noteq> None" by simp
    from Some Cons.prems(1) obtain c' s' where
      run: "build_candidates n self (providers_cache self) r ([], False) = Some (Inr (c', s'))"
      by (auto split: option.splits sum.splits)
    from Some Cons.prems(1) run have s': "s'"
      by (auto split: if_splits)
    from build_candidates_values [OF cr run] H
    have sub: "\<forall>x\<in>snd ` set c'. choices_nonempty x" by auto
    show ?thesis
    proof (cases "c' = []")
      case True
      with Some Cons.prems run s' Cons.IH [of d] show ?thesis by simp
    next
      case False
      with sub have "choices_nonempty (RequirementTreeChoice r c')" by simp
      with Cons.prems(2) have "\<forall>x\<in>set (d @ [RequirementTreeChoice r c']). choices_nonempty x"
        by simp
      with False Some Cons.prems(1) run s' Cons.IH [of "d @ [RequirementTreeChoice r c']"]
      show ?thesis by simp
    qed
  qed
qed

text \<open>
  C6.  Every tree returned by \<open>build_tree\<close> has only choice nodes with a non-empty
  candidates dictionary, at every depth of the tree.
\<close>

theorem build_tree_choices_nonempty:
  "build_tree n self schema = Some (Inr t) \<Longrightarrow> choices_nonempty t"
proof (induction n arbitrary: schema t)
  case 0
  then show ?case by simp
next
  case (Suc n)
  from Suc.prems have bs: "build_schema n self schema [] = Some (Inr t)" by simp
  show ?case
  proof (rule build_schema_choices_nonempty)
    show "\<forall>schema t. build_tree n self schema = Some (Inr t) \<longrightarrow> choices_nonempty t"
      using Suc.IH by blast
    show "build_schema n self schema [] = Some (Inr t)" by (rule bs)
    show "\<forall>x\<in>set []. choices_nonempty x" by simp
  qed
qed

theorem build_tree_choices_nonempty_witness:
  "build_tree (Suc (Suc 0)) registry_ab [R_os_linux] =
     Some (Inr (RequirementTreeList
       [RequirementTreeChoice R_os_linux [(P_b, RequirementTreeList [RequirementTreeReq R_plain])]]))
   \<and> choices_nonempty (RequirementTreeList
       [RequirementTreeChoice R_os_linux [(P_b, RequirementTreeList [RequirementTreeReq R_plain])]])"
proof -
  have run: "build_tree (Suc (Suc 0)) registry_ab [R_os_linux] =
     Some (Inr (RequirementTreeList
       [RequirementTreeChoice R_os_linux [(P_b, RequirementTreeList [RequirementTreeReq R_plain])]]))"
    by (simp add: ex_defs)
  from build_tree_choices_nonempty [OF run] run show ?thesis by simp
qed

text \<open>
  More depth never changes an outcome: a call that finishes within depth \<open>n\<close> finishes
  with the same result within any larger depth.
\<close>

lemma build_candidates_fuel:
  assumes H: "\<forall>schema res. build_tree m self schema = Some res \<longrightarrow>
                build_tree m' self schema = Some res"
    and "build_candidates m self ps r (c, s) = Some x"
  shows "build_candidates m' self ps r (c, s) = Some x"
  using assms(2)
proof (induction ps arbitrary: c s)
  case Nil
  then show ?case by simp
next
  case (Cons p ps)
  show ?case
  proof (cases "satisfies p r")
    case (Inl e)
    with Cons.prems show ?thesis by simp
  next
    case (Inr b)
    show ?thesis
    proof (cases b)
      case False
      with Inr Cons show ?thesis by simp
    next
      case True
      with Inr Cons.prems obtain bt where bt: "build_tree m self (get_schema p) = Some bt"
        by (auto split: option.splits)
      with H have bt': "build_tree m' self (get_schema p) = Some bt" by blast
      show ?thesis
      proof (cases bt)
        case (Inl e)
        with Inr True bt bt' Cons.prems Cons.IH [of c s] show ?thesis
          by (cases e) simp_all
      next
        case t: (Inr t)
        with Inr True bt bt' Cons.prems Cons.IH [of "odict_set c p t" True] show ?thesis
          by simp
      qed
    qed
  qed
qed

lemma build_schema_fuel:
  assumes H: "\<forall>schema res. build_tree m self schema = Some res \<longrightarrow>
                build_tree m' self schema = Some res"
    and "build_schema m self schema d = Some x"
  shows "build_schema m' self schema d = Some x"
  using assms(2)
proof (induction schema arbitrary: d)
  case Nil
  then show ?case by simp
next
  case (Cons r rest)
  show ?case
  proof (cases "constraints r")
    case None
    with Cons show ?thesis by simp
  next
    case (Some items)
    with Cons.prems obtain bc where
      bc: "build_candidates m self (providers_cache self) r ([], False) = Some bc"
      by (auto split: option.splits)
    from build_candidates_fuel [OF H bc]
    have bc': "build_candidates m' self (providers_cache self) r ([], False) = Some bc" .
    show ?thesis
    proof (cases bc)
      case (Inl e)
      with Some bc bc' Cons.prems show ?thesis by simp
    next
      case (Inr cs)
      obtain c s where cs: "cs = (c, s)" by (cases cs)
      from Some bc bc' Inr cs Cons.prems
        Cons.IH [of "d @ [RequirementTreeChoice r c]"] Cons.IH [of d]
      show ?thesis by (simp split: if_splits)
    qed
  qed
qed

lemma build_tree_fuel_Suc:
  "build_tree n self schema = Some res \<Longrightarrow> build_tree (Suc n) self schema = Some res"
proof (induction n arbitrary: schema res)
  case 0
  then show ?case by simp
next
  case (Suc n)
  have H: "\<forall>schema res. build_tree n self schema = Some res \<longrightarrow>
             build_tree (Suc n) self schema = Some res"
    using Suc.IH by blast
  from Suc.prems have "build_schema n self schema [] = Some res" by simp
  from build_schema_fuel [OF H this] show ?case by simp
qed

lemma build_tree_fuel_mono:
  "build_tree n self schema = Some res \<Longrightarrow> build_tree (n + k) self schema = Some res"
  by (induction k) (auto dest: build_tree_fuel_Suc)


section \<open>Properties of the registry\<close>

text \<open>A provider whose \<^verbatim>\<open>provides\<close> dictionary is empty.\<close>

definition P_bare :: provider where
  "P_bare =
     \<lparr>pid = 2, priority = 50, provides = [], get_schema = [], fulfill = (\<lambda>c r p. c)\<rparr>"

lemma build_caches_items_cache:
  "snd (build_caches_items p items (idx, cache)) =
     (if items = [] then cache else insert p cache)"
  by (induction items arbitrary: idx cache) (auto simp: Let_def split: if_splits)

lemma build_caches_loop_cache:
  "snd (build_caches_loop ps st) = snd st \<union> {p \<in> set ps. provides p \<noteq> []}"
proof (induction ps arbitrary: st)
  case Nil
  show ?case by simp
next
  case (Cons p ps)
  obtain idx cache where st: "st = (idx, cache)" by (cases st)
  show ?case
    using Cons.IH [of "build_caches_items p (provides p) st"]
      build_caches_items_cache [of p "provides p" idx cache] st
    by auto
qed

lemma build_caches_cache:
  "snd (build_caches subclasses) = {p \<in> set subclasses. provides p \<noteq> []}"
  by (simp add: build_caches_def build_caches_loop_cache)

text \<open>
  The capability index: a key is indexed exactly when some enumerated provider declares it,
  and it is mapped to the union of the values declared for it.
\<close>

lemma build_caches_items_index:
  "get_or_empty (fst (build_caches_items p items (idx, cache))) k =
     get_or_empty idx k \<union> (\<Union>v\<in>{v. (k, v) \<in> set items}. set (as_list v))"
proof (induction items arbitrary: idx cache)
  case Nil
  show ?case by simp
next
  case (Cons kv items)
  obtain k' v' where kv: "kv = (k', v')" by (cases kv)
  show ?case
    unfolding kv build_caches_items.simps Let_def Cons.IH
    by (cases v') (auto simp: get_or_empty_def)
qed

lemma build_caches_loop_index:
  "get_or_empty (fst (build_caches_loop ps st)) k =
     get_or_empty (fst st) k \<union>
     (\<Union>p\<in>set ps. \<Union>v\<in>{v. (k, v) \<in> set (provides p)}. set (as_list v))"
proof (induction ps arbitrary: st)
  case Nil
  show ?case by simp
next
  case (Cons p ps)
  obtain idx cache where st: "st = (idx, cache)" by (cases st)
  show ?case
    unfolding build_caches_loop.simps Cons.IH st build_caches_items_index
    by auto
qed

lemma build_caches_index:
  "get_or_empty (fst (build_caches subclasses)) k =
     (\<Union>p\<in>set subclasses. \<Union>v\<in>{v. (k, v) \<in> set (provides p)}. set (as_list v))"
  unfolding build_caches_def build_caches_loop_index by (simp add: get_or_empty_def)

lemma build_caches_items_dom:
  "dom (fst (build_caches_items p items (idx, cache))) = dom idx \<union> fst ` set items"
proof (induction items arbitrary: idx cache)
  case Nil
  show ?case by simp
next
  case (Cons kv items)
  obtain k' v' where kv: "kv = (k', v')" by (cases kv)
  show ?case
    unfolding kv build_caches_items.simps Let_def Cons.IH
    by auto
qed

lemma build_caches_loop_dom:
  "dom (fst (build_caches_loop ps st)) = dom (fst st) \<union> (\<Union>p\<in>set ps. fst ` set (provides p))"
proof (induction ps arbitrary: st)
  case Nil
  show ?case by simp
next
  case (Cons p ps)
  obtain idx cache where st: "st = (idx, cache)" by (cases st)
  show ?case
    unfolding build_caches_loop.simps Cons.IH st build_caches_items_dom
    by auto
qed

lemma build_caches_dom:
  "dom (fst (build_caches subclasses)) = (\<Union>p\<in>set subclasses. fst ` set (provides p))"
  by (simp add: build_caches_def build_caches_loop_dom)

text \<open>
  C7.  The set returned by \<open>build_caches\<close> holds exactly the enumerated providers with at
  least one \<^verbatim>\<open>provides\<close> entry (lemma \<open>build_caches_cache\<close>).  On the enumeration of
  \<open>P_bare\<close> and \<open>P_linux_mac\<close> the provider \<open>P_bare\<close>, which declares nothing, is
  therefore not recorded in the providers list, while the index is built as expected.
\<close>

theorem build_caches_drops_provider_without_provides:
  "snd (build_caches [P_bare, P_linux_mac]) = {P_linux_mac}
   \<and> fst (build_caches [P_bare, P_linux_mac]) ''os'' = Some {''linux'', ''mac''}
   \<and> providers_cache (DependencyResolver_init [P_bare, P_linux_mac] [P_linux_mac]) = [P_linux_mac]
   \<and> P_bare \<notin> set (providers_cache (DependencyResolver_init [P_bare, P_linux_mac] [P_linux_mac]))
   \<and> provides P_bare = []"
  by (simp add: build_caches_def DependencyResolver_init_def P_bare_def P_linux_mac_def Let_def
      get_or_empty_def)

section \<open>Order of the candidates\<close>

lemma build_candidates_keys:
  assumes "constraints r \<noteq> None"
    and "build_candidates n self ps r (c, s) = Some (Inr (c', s'))"
    and "distinct ps" and "set ps \<inter> fst ` set c = {}"
  shows "map fst c' = map fst c @
           filter (\<lambda>p. satisfies p r = Inr True \<and>
                    (\<exists>t. build_tree n self (get_schema p) = Some (Inr t))) ps
         \<and> (\<forall>(p, t)\<in>set c'. (p, t) \<in> set c \<or> build_tree n self (get_schema p) = Some (Inr t))"
  using assms(2,3,4)
proof (induction ps arbitrary: c s)
  case Nil
  then show ?case by auto
next
  case (Cons p ps)
  from Cons.prems have d: "distinct ps" and np: "p \<notin> set ps" and pc: "p \<notin> fst ` set c"
    and disj: "set ps \<inter> fst ` set c = {}" by auto
  from assms(1) Cons.prems(1) show ?case
  proof (cases rule: build_candidates_cases)
    case skip
    with Cons.IH [OF skip(2) d disj] show ?thesis by auto
  next
    case (fail m)
    with Cons.IH [OF fail(3) d disj] show ?thesis by auto
  next
    case (ok t)
    have app: "odict_set c p t = c @ [(p, t)]" using pc by (rule odict_set_fresh)
    have disj': "set ps \<inter> fst ` set (odict_set c p t) = {}"
      using disj np by (auto simp: app)
    from Cons.IH [OF ok(3) d disj'] ok(1,2) show ?thesis
      by (auto simp: app)
  qed
qed

lemma build_candidates_total:
  assumes "constraints r \<noteq> None"
    and "\<forall>p\<in>set ps. satisfies p r = Inr True \<longrightarrow> build_tree n self (get_schema p) \<noteq> None"
  shows "\<exists>c' s'. build_candidates n self ps r (c, s) = Some (Inr (c', s'))"
  using assms(2)
proof (induction ps arbitrary: c s)
  case Nil
  show ?case by simp
next
  case (Cons p ps)
  obtain b where b: "satisfies p r = Inr b"
    using satisfies_constrained [OF assms(1)] by blast
  show ?case
  proof (cases b)
    case False
    with b Cons show ?thesis by simp
  next
    case True
    with b Cons.prems obtain bt where bt: "build_tree n self (get_schema p) = Some bt" by auto
    show ?thesis
    proof (cases bt)
      case (Inl e)
      with bt build_tree_raises_DependencyError obtain m where "e = DependencyError m" by blast
      with Inl bt b True Cons.prems Cons.IH [of c s] show ?thesis by simp
    next
      case (Inr t)
      with bt b True Cons.prems Cons.IH [of "odict_set c p t" True] show ?thesis by simp
    qed
  qed
qed

lemma descending_priorities:
  "sorted (map (\<lambda>x. - priority x) ps) \<Longrightarrow> distinct (map priority ps) \<Longrightarrow>
   sorted_wrt (\<lambda>p q. priority q < priority p) ps"
proof (induction ps)
  case Nil
  show ?case by simp
next
  case (Cons a ps)
  from Cons.prems(1) have le: "\<forall>q\<in>set ps. priority q \<le> priority a" by simp
  from Cons.prems(2) have "priority a \<notin> priority ` set ps" by simp
  then have ne: "\<forall>q\<in>set ps. priority q \<noteq> priority a" by (metis imageI)
  from le ne have "\<forall>q\<in>set ps. priority q < priority a" by force
  with Cons show ?case by simp
qed


text \<open>
  C4 (amended).  Let the registry be constructed from a duplicate-free listing of the
  cache in which the providers satisfying the constrained requirement \<open>r\<close> have pairwise
  distinct priorities.  If the own build of every satisfying provider finishes within
  depth \<open>n\<close> and at least one of them returns a tree, then \<open>build_tree\<close> on the schema
  \<open>[r]\<close> returns a list with one choice node, whose candidates are exactly the satisfying
  providers whose own build returned a tree, each with that tree, in strictly descending
  priority order.
\<close>

theorem build_tree_candidates_priority_order:
  assumes "self = DependencyResolver_init subclasses listing"
    and "set listing = snd (build_caches subclasses)" and "distinct listing"
    and "distinct (map priority (filter (\<lambda>p. satisfies p r = Inr True) listing))"
    and "constraints r \<noteq> None"
    and "\<forall>p\<in>set listing. satisfies p r = Inr True \<longrightarrow>
           build_tree n self (get_schema p) \<noteq> None"
    and "\<exists>p\<in>set listing. satisfies p r = Inr True \<and>
           (\<exists>t. build_tree n self (get_schema p) = Some (Inr t))"
  shows "\<exists>cands.
           build_tree (Suc n) self [r] =
             Some (Inr (RequirementTreeList [RequirementTreeChoice r cands]))
           \<and> map fst cands =
               filter (\<lambda>p. satisfies p r = Inr True \<and>
                        (\<exists>t. build_tree n self (get_schema p) = Some (Inr t)))
                 (providers_cache self)
           \<and> (\<forall>(p, t)\<in>set cands. build_tree n self (get_schema p) = Some (Inr t))
           \<and> sorted_wrt (\<lambda>p q. priority q < priority p) (map fst cands)"
proof -
  let ?S = "\<lambda>p. satisfies p r = Inr True"
  let ?G = "\<lambda>p. satisfies p r = Inr True \<and>
                 (\<exists>t. build_tree n self (get_schema p) = Some (Inr t))"
  let ?ps = "providers_cache self"
  have ps: "?ps = sort_key (\<lambda>x. - priority x) listing"
    using assms(1) by (simp add: DependencyResolver_init_def)
  have set_ps: "set ?ps = set listing" and dist_ps: "distinct ?ps"
    using assms(3) by (simp_all add: ps)
  have total: "\<forall>p\<in>set ?ps. ?S p \<longrightarrow> build_tree n self (get_schema p) \<noteq> None"
    using assms(6) set_ps by simp
  from build_candidates_total [OF assms(5) total, of "[]" False]
  obtain c' s' where run: "build_candidates n self ?ps r ([], False) = Some (Inr (c', s'))"
    by blast
  from build_candidates_satisfiable [OF assms(5) run] assms(7) set_ps have s': "s'" by simp
  from build_candidates_nonempty [OF assms(5) run] s' have ne: "c' \<noteq> []" by simp
  from build_candidates_keys [OF assms(5) run dist_ps]
  have keys: "map fst c' = filter ?G ?ps"
    and vals: "\<forall>(p, t)\<in>set c'. build_tree n self (get_schema p) = Some (Inr t)"
    by auto
  have built: "build_tree (Suc n) self [r] =
                 Some (Inr (RequirementTreeList [RequirementTreeChoice r c']))"
    using assms(5) run s' ne by auto
  have fS: "filter ?S ?ps = sort_key (\<lambda>x. - priority x) (filter ?S listing)"
    by (simp add: ps filter_sort)
  have "sorted (map (\<lambda>x. - priority x) (filter ?S ?ps))"
    by (simp add: fS)
  moreover have "distinct (map priority (filter ?S ?ps))"
  proof -
    from assms(4) have "distinct (filter ?S listing)"
      and "inj_on priority (set (filter ?S listing))"
      by (simp_all add: distinct_map)
    then show ?thesis
      by (simp add: fS distinct_map)
  qed
  ultimately have "sorted_wrt (\<lambda>p q. priority q < priority p) (filter ?S ?ps)"
    by (rule descending_priorities)
  then have "sorted_wrt (\<lambda>p q. priority q < priority p) (filter ?G (filter ?S ?ps))"
    by (rule sorted_wrt_filter)
  moreover have "filter ?G (filter ?S ?ps) = filter ?G ?ps"
    by (simp cong: conj_cong)
  ultimately have "sorted_wrt (\<lambda>p q. priority q < priority p) (map fst c')"
    by (simp add: keys)
  with built keys vals show ?thesis by blast
qed


text \<open>
  A third provider, of the highest priority, without requirements of its own, and the
  registry of all three.
\<close>

definition P_c :: provider where
  "P_c =
     \<lparr>pid = 5, priority = 30,
      provides = [(''os'', Many [''linux'', ''windows'']), (''arch'', Single ''c'')],
      get_schema = [], fulfill = (\<lambda>c r p. c\<lparr>config := (config c)(p \<mapsto> StrV ''c'')\<rparr>)\<rparr>"

definition registry_abc :: DependencyResolver where
  "registry_abc = DependencyResolver_init [P_b, P_a, P_c] [P_b, P_a, P_c]"

lemmas ex_defs' = ex_defs P_c_def registry_abc_def

text \<open>
  C4 as stated fails: three providers of priorities 30, 20 and 10 satisfy the requirement,
  but the candidates are only the first and the last, because the own build of the middle
  one raises \<^verbatim>\<open>DependencyError\<close> and the provider is discarded.
\<close>

theorem build_tree_candidates_all_satisfying_counterexample:
  "providers_cache registry_abc = [P_c, P_a, P_b]
   \<and> satisfies P_c R_os_linux = Inr True
   \<and> satisfies P_a R_os_linux = Inr True
   \<and> satisfies P_b R_os_linux = Inr True
   \<and> priority P_b < priority P_a \<and> priority P_a < priority P_c
   \<and> build_tree (Suc (Suc 0)) registry_abc [R_os_linux] =
       Some (Inr (RequirementTreeList
         [RequirementTreeChoice R_os_linux
            [(P_c, RequirementTreeList []),
             (P_b, RequirementTreeList [RequirementTreeReq R_plain])]]))
   \<and> map pid [P_c, P_b] \<noteq> map pid [P_c, P_a, P_b]"
  by (simp add: ex_defs')

theorem build_tree_candidates_priority_order_witness:
  "set [P_b, P_a, P_c] = snd (build_caches [P_b, P_a, P_c])
   \<and> build_tree (Suc 0) registry_abc (get_schema P_a) = Some (Inl (no_solutions R_arch_z))
   \<and> (\<exists>cands.
         build_tree (Suc (Suc 0)) registry_abc [R_os_linux] =
           Some (Inr (RequirementTreeList [RequirementTreeChoice R_os_linux cands]))
         \<and> map fst cands = [P_c, P_b]
         \<and> sorted_wrt (\<lambda>p q. priority q < priority p) (map fst cands))"
proof -
  have h1: "registry_abc = DependencyResolver_init [P_b, P_a, P_c] [P_b, P_a, P_c]"
    by (simp add: registry_abc_def)
  have h2: "set [P_b, P_a, P_c] = snd (build_caches [P_b, P_a, P_c])"
    by (simp add: build_caches_def P_a_def P_b_def P_c_def Let_def insert_commute)
  have h3: "distinct [P_b, P_a, P_c]"
    by (simp add: P_a_def P_b_def P_c_def)
  have h4: "distinct (map priority
              (filter (\<lambda>p. satisfies p R_os_linux = Inr True) [P_b, P_a, P_c]))"
    by (simp add: ex_defs')
  have h5: "constraints R_os_linux \<noteq> None"
    by (simp add: R_os_linux_def)
  have bA: "build_tree (Suc 0) registry_abc (get_schema P_a) = Some (Inl (no_solutions R_arch_z))"
    by (simp add: ex_defs')
  have bB: "build_tree (Suc 0) registry_abc (get_schema P_b) =
              Some (Inr (RequirementTreeList [RequirementTreeReq R_plain]))"
    by (simp add: ex_defs')
  have bC: "build_tree (Suc 0) registry_abc (get_schema P_c) = Some (Inr (RequirementTreeList []))"
    by (simp add: ex_defs')
  have h6: "\<forall>p\<in>set [P_b, P_a, P_c]. satisfies p R_os_linux = Inr True \<longrightarrow>
              build_tree (Suc 0) registry_abc (get_schema p) \<noteq> None"
    using bA bB bC by simp
  have h7: "\<exists>p\<in>set [P_b, P_a, P_c]. satisfies p R_os_linux = Inr True \<and>
              (\<exists>t. build_tree (Suc 0) registry_abc (get_schema p) = Some (Inr t))"
    using bB by (simp add: ex_defs')
  have cache: "providers_cache registry_abc = [P_c, P_a, P_b]"
    by (simp add: ex_defs')
  have sat: "satisfies P_c R_os_linux = Inr True" "satisfies P_a R_os_linux = Inr True"
    "satisfies P_b R_os_linux = Inr True"
    by (simp_all add: ex_defs')
  from build_tree_candidates_priority_order [OF h1 h2 h3 h4 h5 h6 h7]
  obtain cands where
    c1: "build_tree (Suc (Suc 0)) registry_abc [R_os_linux] =
           Some (Inr (RequirementTreeList [RequirementTreeChoice R_os_linux cands]))"
    and c2: "map fst cands =
        filter (\<lambda>p. satisfies p R_os_linux = Inr True \<and>
                 (\<exists>t. build_tree (Suc 0) registry_abc (get_schema p) = Some (Inr t)))
          (providers_cache registry_abc)"
    and c3: "sorted_wrt (\<lambda>p q. priority q < priority p) (map fst cands)"
    by blast
  from c2 have m: "map fst cands = [P_c, P_b]"
    unfolding cache by (simp add: ex_defs')
  have "\<exists>cands.
         build_tree (Suc (Suc 0)) registry_abc [R_os_linux] =
           Some (Inr (RequirementTreeList [RequirementTreeChoice R_os_linux cands]))
         \<and> map fst cands = [P_c, P_b]
         \<and> sorted_wrt (\<lambda>p q. priority q < priority p) (map fst cands)"
    by (rule exI [of _ cands]) (intro conjI c1 m c3)
  then show ?thesis by (intro conjI h2 bA)
qed

section \<open>Validating a tree against a configuration\<close>

text \<open>
  Modelled from the spec: \<^verbatim>\<open>interfaces.configuration.CONFIG_SEPARATOR\<close> is a constant of a
  module that is not part of the source at hand; the spec says that path segments are
  joined by a defined separator character.  No statement below depends on which one.
\<close>

definition CONFIG_SEPARATOR :: string where
  "CONFIG_SEPARATOR = ''.''"

text \<open>
  The state threaded through a validation: the context, which the providers' \<^verbatim>\<open>fulfill\<close>
  callbacks change, and a log of the \<^verbatim>\<open>fulfill\<close> calls made so far (provider identity,
  requirement name, path).  The log is not data of the program; it is kept so that calls
  can be counted.
\<close>

record vstate =
  ctx :: Context
  fulfill_calls :: "(nat \<times> string \<times> string) list"

text \<open>\<^verbatim>\<open>provider.fulfill(context, node.requirement, node_path)\<close>\<close>

definition call_fulfill :: "provider \<Rightarrow> requirement \<Rightarrow> string \<Rightarrow> vstate \<Rightarrow> vstate" where
  "call_fulfill provider r node_path st =
     \<lparr>ctx = fulfill provider (ctx st) r node_path,
      fulfill_calls = fulfill_calls st @ [(pid provider, name r, node_path)]\<rparr>"

text \<open>
  The body of the \<^verbatim>\<open>try\<close> statement: the exception raised by
  \<^verbatim>\<open>context.config[node_path]\<close> or by \<^verbatim>\<open>node.requirement.validate(value, context)\<close>, if
  any.  The callback is taken not to change the context.
\<close>

definition value_check :: "requirement \<Rightarrow> Context \<Rightarrow> string \<Rightarrow> error option" where
  "value_check r c node_path =
     (case config c node_path of
        None \<Rightarrow> Some KeyError
      | Some v \<Rightarrow> validate r v c)"

text \<open>
  The whole \<^verbatim>\<open>try\<close> statement ends in \<^verbatim>\<open>return False\<close>: an exception was raised and
  the requirement is not optional.
\<close>

definition check_fails :: "requirement \<Rightarrow> Context \<Rightarrow> string \<Rightarrow> bool" where
  "check_fails r c node_path =
     (case value_check r c node_path of
        Some e \<Rightarrow> \<not> optional r
      | None \<Rightarrow> False)"

text \<open>
  \<open>validate_dependencies\<close> is the method, \<open>validate_children\<close> its loop over
  \<^verbatim>\<open>deptree.children\<close> and \<open>validate_candidates\<close> the inner loop over
  \<^verbatim>\<open>node.candidates\<close>, which yields \<open>True\<close> when it left by \<^verbatim>\<open>break\<close> and \<open>False\<close>
  when it ran into its \<^verbatim>\<open>else\<close> clause.  A node without the attribute that is read
  (\<^verbatim>\<open>children\<close> of a leaf or choice, \<^verbatim>\<open>requirement\<close> of a list) raises
  \<^verbatim>\<open>AttributeError\<close>.  Where the node is an optional choice the inner loop is skipped.
\<close>

fun validate_dependencies :: "tree \<Rightarrow> vstate \<Rightarrow> string option \<Rightarrow> error + bool \<times> vstate"
and validate_children :: "tree list \<Rightarrow> vstate \<Rightarrow> string \<Rightarrow> error + bool \<times> vstate"
and validate_candidates ::
  "candidates \<Rightarrow> requirement \<Rightarrow> vstate \<Rightarrow> string \<Rightarrow> error + bool \<times> vstate"
where
  "validate_dependencies (RequirementTreeList children) st path =
     validate_children children st (case path of None \<Rightarrow> [] | Some p \<Rightarrow> p)"
| "validate_dependencies (RequirementTreeReq r) st path = Inl AttributeError"
| "validate_dependencies (RequirementTreeChoice r cands) st path = Inl AttributeError"
| "validate_children [] st path = Inr (True, st)"
| "validate_children (RequirementTreeList cs # rest) st path = Inl AttributeError"
| "validate_children (RequirementTreeReq r # rest) st path =
     (let node_path = path @ CONFIG_SEPARATOR @ name r in
      if check_fails r (ctx st) node_path then Inr (False, st)
      else validate_children rest st path)"
| "validate_children (RequirementTreeChoice r cands # rest) st path =
     (let node_path = path @ CONFIG_SEPARATOR @ name r in
      case (if \<not> optional r then validate_candidates cands r st node_path
            else Inr (True, st)) of
        Inl e \<Rightarrow> Inl e
      | Inr (False, st') \<Rightarrow> Inr (False, st')
      | Inr (True, st') \<Rightarrow>
          if check_fails r (ctx st') node_path then Inr (False, st')
          else validate_children rest st' path)"
| "validate_candidates [] r st node_path = Inr (False, st)"
| "validate_candidates ((provider, subtree) # cands) r st node_path =
     (case validate_dependencies subtree st (Some node_path) of
        Inl e \<Rightarrow> Inl e
      | Inr (True, st') \<Rightarrow> Inr (True, call_fulfill provider r node_path st')
      | Inr (False, st') \<Rightarrow> validate_candidates cands r st' node_path)"

text \<open>
  The trees on which no attribute is missing: a list whose children are leaves and choices,
  the candidates of every choice being such lists again.
\<close>

fun is_deptree :: "tree \<Rightarrow> bool"
and is_node :: "tree \<Rightarrow> bool" where
  "is_deptree (RequirementTreeList children) = (\<forall>c\<in>set children. is_node c)"
| "is_deptree (RequirementTreeReq r) = False"
| "is_deptree (RequirementTreeChoice r cands) = False"
| "is_node (RequirementTreeReq r) = True"
| "is_node (RequirementTreeChoice r cands) = (\<forall>t\<in>snd ` set cands. is_deptree t)"
| "is_node (RequirementTreeList children) = False"

text \<open>
  From \<open>st\<close> to \<open>st'\<close> the log only grew, and by calls at paths longer than \<open>n\<close>.
\<close>

definition deeper_calls :: "vstate \<Rightarrow> vstate \<Rightarrow> nat \<Rightarrow> bool" where
  "deeper_calls st st' n =
     (\<exists>new. fulfill_calls st' = fulfill_calls st @ new \<and>
        (\<forall>(i, nm, q)\<in>set new. n < length q))"

section \<open>Properties of the validation\<close>

lemma deeper_calls_refl: "deeper_calls st st n"
  by (simp add: deeper_calls_def)

lemma deeper_calls_trans:
  "deeper_calls st s1 n \<Longrightarrow> deeper_calls s1 s2 n \<Longrightarrow> deeper_calls st s2 n"
  unfolding deeper_calls_def by force

lemma deeper_calls_mono:
  "deeper_calls st st' m \<Longrightarrow> n \<le> m \<Longrightarrow> deeper_calls st st' n"
  unfolding deeper_calls_def by force

lemma deeper_calls_fulfill:
  "deeper_calls st s1 n \<Longrightarrow> n < length np \<Longrightarrow> deeper_calls st (call_fulfill p r np s1) n"
  unfolding deeper_calls_def call_fulfill_def by force


lemma node_path_longer: "length path < length (path @ CONFIG_SEPARATOR @ nm)"
  by (simp add: CONFIG_SEPARATOR_def)

lemma validate_calls:
  "validate_dependencies t st popt = Inr (b, st') \<longrightarrow>
     deeper_calls st st' (length (case popt of None \<Rightarrow> [] | Some p \<Rightarrow> p))"
  "validate_children cs st path = Inr (b, st') \<longrightarrow> deeper_calls st st' (length path)"
  "validate_candidates cands r st np = Inr (b, st') \<longrightarrow>
     (if b then \<exists>s2 p. st' = call_fulfill p r np s2 \<and> deeper_calls st s2 (length np)
      else deeper_calls st st' (length np))"
proof (induction t st popt and cs st path and cands r st np arbitrary: b st' and b st' and b st'
    rule: validate_dependencies_validate_children_validate_candidates.induct)
  case (1 children st path)
  then show ?case by simp
next
  case (2 r st path)
  show ?case by simp
next
  case (3 r cands st path)
  show ?case by simp
next
  case (4 st path)
  show ?case by (auto simp: deeper_calls_refl)
next
  case (5 cs rest st path)
  show ?case by simp
next
  case (6 r rest st path)
  show ?case
  proof (cases "check_fails r (ctx st) (path @ CONFIG_SEPARATOR @ name r)")
    case True
    then show ?thesis by (auto simp: deeper_calls_refl)
  next
    case False
    with 6 [OF refl False] show ?thesis by simp
  qed
next
  case (7 r cands rest st path)
  let ?np = "path @ CONFIG_SEPARATOR @ name r"
  show ?case
  proof (intro impI)
    assume run: "validate_children (RequirementTreeChoice r cands # rest) st path = Inr (b, st')"
    define sel where "sel = (if \<not> optional r then validate_candidates cands r st ?np
            else Inr (True, st))"
    from run obtain b1 s1 where sel: "sel = Inr (b1, s1)"
      unfolding sel_def by (auto simp: Let_def split: sum.splits if_splits)
    have d1: "deeper_calls st s1 (length path)"
    proof (cases "optional r")
      case True
      with sel show ?thesis by (simp add: sel_def deeper_calls_refl)
    next
      case False
      with sel have vc: "validate_candidates cands r st ?np = Inr (b1, s1)"
        by (simp add: sel_def)
      from 7(1) [OF refl False, of b1 s1] vc
      have *: "if b1 then \<exists>s2 p. s1 = call_fulfill p r ?np s2 \<and> deeper_calls st s2 (length ?np)
            else deeper_calls st s1 (length ?np)" by simp
      have le: "length path \<le> length ?np" by simp
      show ?thesis
      proof (cases b1)
        case True
        with * obtain s2 p where s1: "s1 = call_fulfill p r ?np s2"
          and d: "deeper_calls st s2 (length ?np)" by auto
        from d le have "deeper_calls st s2 (length path)" by (rule deeper_calls_mono)
        from deeper_calls_fulfill [OF this node_path_longer] show ?thesis by (simp add: s1)
      next
        case False
        with * have "deeper_calls st s1 (length ?np)" by simp
        then show ?thesis using le by (rule deeper_calls_mono)
      qed
    qed
    show "deeper_calls st st' (length path)"
    proof (cases b1)
      case False
      with run sel have "st' = s1" by (simp add: sel_def [symmetric] Let_def)
      with d1 show ?thesis by simp
    next
      case True
      show ?thesis
      proof (cases "check_fails r (ctx s1) ?np")
        case cf: True
        with run sel True have "st' = s1" by (simp add: sel_def [symmetric] Let_def)
        with d1 show ?thesis by simp
      next
        case cf: False
        with run sel True have rest: "validate_children rest s1 path = Inr (b, st')"
          by (simp add: sel_def [symmetric] Let_def)
        from 7(2) [OF refl sel [unfolded sel_def] refl _ cf, of b st'] True rest
        have "deeper_calls s1 st' (length path)" by simp
        with d1 show ?thesis by (rule deeper_calls_trans)
      qed
    qed
  qed
next
  case (8 r st node_path)
  show ?case by (auto simp: deeper_calls_refl)
next
  case (9 provider subtree cands r st node_path)
  show ?case
  proof (intro impI)
    assume run: "validate_candidates ((provider, subtree) # cands) r st node_path = Inr (b, st')"
    then obtain b1 s1 where sub: "validate_dependencies subtree st (Some node_path) = Inr (b1, s1)"
      by (auto split: sum.splits)
    from 9(1) [of b1 s1] sub have d1: "deeper_calls st s1 (length node_path)" by simp
    show "if b then \<exists>s2 p. st' = call_fulfill p r node_path s2 \<and>
                   deeper_calls st s2 (length node_path)
          else deeper_calls st st' (length node_path)"
    proof (cases b1)
      case True
      with run sub d1 show ?thesis by auto
    next
      case False
      with run sub have rest: "validate_candidates cands r s1 node_path = Inr (b, st')" by simp
      from 9(2) [OF sub refl, of b st'] False rest
      have "if b then \<exists>s2 p. st' = call_fulfill p r node_path s2 \<and>
                   deeper_calls s1 s2 (length node_path)
          else deeper_calls s1 st' (length node_path)" by simp
      with d1 show ?thesis
        by (auto split: if_splits intro: deeper_calls_trans)
    qed
  qed
qed


lemma validate_candidates_prefix:
  "validate_candidates pre r st np = Inr (False, s1) \<Longrightarrow>
   validate_candidates (pre @ rest) r st np = validate_candidates rest r s1 np"
proof (induction pre arbitrary: st)
  case Nil
  then show ?case by simp
next
  case (Cons pt pre)
  obtain p t where pt: "pt = (p, t)" by (cases pt)
  from Cons.prems pt obtain sx where
    sub: "validate_dependencies t st (Some np) = Inr (False, sx)"
    and rest: "validate_candidates pre r sx np = Inr (False, s1)"
    by (auto split: sum.splits bool.splits)
  from Cons.IH [OF rest] sub pt show ?case by simp
qed

lemma validate_candidates_commit:
  "validate_candidates cands r st np = Inr (True, st') \<Longrightarrow>
   \<exists>pre p t post s1 s2. cands = pre @ (p, t) # post \<and>
      validate_candidates pre r st np = Inr (False, s1) \<and>
      validate_dependencies t s1 (Some np) = Inr (True, s2) \<and>
      st' = call_fulfill p r np s2"
proof (induction cands arbitrary: st)
  case Nil
  then show ?case by simp
next
  case (Cons qu cands)
  obtain q u where qu: "qu = (q, u)" by (cases qu)
  from Cons.prems qu obtain b sx where
    sub: "validate_dependencies u st (Some np) = Inr (b, sx)"
    by (auto split: sum.splits)
  show ?case
  proof (cases b)
    case True
    with Cons.prems qu sub have "st' = call_fulfill q r np sx" by simp
    with qu sub True have "qu # cands = [] @ (q, u) # cands \<and>
      validate_candidates [] r st np = Inr (False, st) \<and>
      validate_dependencies u st (Some np) = Inr (True, sx) \<and>
      st' = call_fulfill q r np sx" by simp
    then show ?thesis by blast
  next
    case False
    with Cons.prems qu sub have "validate_candidates cands r sx np = Inr (True, st')" by simp
    from Cons.IH [OF this] obtain pre p t post s1 s2 where
      *: "cands = pre @ (p, t) # post" "validate_candidates pre r sx np = Inr (False, s1)"
      "validate_dependencies t s1 (Some np) = Inr (True, s2)" "st' = call_fulfill p r np s2"
      by blast
    from * qu sub False have "qu # cands = (qu # pre) @ (p, t) # post \<and>
      validate_candidates (qu # pre) r st np = Inr (False, s1) \<and>
      validate_dependencies t s1 (Some np) = Inr (True, s2) \<and>
      st' = call_fulfill p r np s2" by simp
    then show ?thesis by blast
  qed
qed

lemma validate_candidates_all_fail:
  "validate_candidates (pre @ (p, t) # post) r st np = Inr (False, st') \<Longrightarrow>
   \<exists>s1 s2. validate_candidates pre r st np = Inr (False, s1) \<and>
     validate_dependencies t s1 (Some np) = Inr (False, s2)"
proof (induction pre arbitrary: st)
  case Nil
  then show ?case by (auto split: sum.splits bool.splits)
next
  case (Cons qu pre)
  obtain q u where qu: "qu = (q, u)" by (cases qu)
  from Cons.prems qu obtain sx where
    sub: "validate_dependencies u st (Some np) = Inr (False, sx)"
    and rest: "validate_candidates (pre @ (p, t) # post) r sx np = Inr (False, st')"
    by (auto split: sum.splits bool.splits)
  from Cons.IH [OF rest] sub qu show ?case by simp
qed

text \<open>
  C3.  At a non-optional choice node the candidates are tried first, in their stored order:
  the node's processing is the candidate loop followed, when the loop committed, by the
  node's own value check and the remaining siblings, and is the answer false at once when
  the loop found no candidate.  When the loop commits, the candidates split into a prefix
  whose subtrees all failed to validate, the first candidate whose subtree validates, and a
  rest that is never looked at; \<^verbatim>\<open>fulfill\<close> of that candidate is the only call logged at
  the node's path (all other new calls, made inside subtrees, are at longer paths).  When
  the loop does not commit, every candidate's subtree failed and no call was logged at the
  node's path.
\<close>

theorem validate_choice_commits_first_valid_candidate:
  "(\<not> optional r \<longrightarrow>
      validate_children (RequirementTreeChoice r cands # rest) st path =
        (case validate_candidates cands r st (path @ CONFIG_SEPARATOR @ name r) of
           Inl e \<Rightarrow> Inl e
         | Inr (False, st') \<Rightarrow> Inr (False, st')
         | Inr (True, st') \<Rightarrow> validate_children (RequirementTreeReq r # rest) st' path))
   \<and> (validate_candidates cands r st np = Inr (True, st') \<longrightarrow>
        (\<exists>pre p t post s1 s2 nested.
           cands = pre @ (p, t) # post \<and>
           validate_candidates pre r st np = Inr (False, s1) \<and>
           validate_dependencies t s1 (Some np) = Inr (True, s2) \<and>
           st' = call_fulfill p r np s2 \<and>
           fulfill_calls st' = fulfill_calls st @ nested @ [(pid p, name r, np)] \<and>
           (\<forall>(i, nm, q)\<in>set nested. length np < length q) \<and>
           (\<forall>post'. validate_candidates (pre @ (p, t) # post') r st np = Inr (True, st'))))
   \<and> (validate_candidates cands r st np = Inr (False, st') \<longrightarrow>
        deeper_calls st st' (length np) \<and>
        (\<forall>pre p t post. cands = pre @ (p, t) # post \<longrightarrow>
           (\<exists>s1 s2. validate_candidates pre r st np = Inr (False, s1) \<and>
              validate_dependencies t s1 (Some np) = Inr (False, s2))))"
proof (intro conjI impI)
  assume "\<not> optional r"
  then show "validate_children (RequirementTreeChoice r cands # rest) st path =
        (case validate_candidates cands r st (path @ CONFIG_SEPARATOR @ name r) of
           Inl e \<Rightarrow> Inl e
         | Inr (False, st') \<Rightarrow> Inr (False, st')
         | Inr (True, st') \<Rightarrow> validate_children (RequirementTreeReq r # rest) st' path)"
    by (simp add: Let_def split: sum.splits bool.splits prod.splits)
next
  assume run: "validate_candidates cands r st np = Inr (True, st')"
  from validate_candidates_commit [OF run] obtain pre p t post s1 s2 where
    *: "cands = pre @ (p, t) # post" "validate_candidates pre r st np = Inr (False, s1)"
    "validate_dependencies t s1 (Some np) = Inr (True, s2)" "st' = call_fulfill p r np s2"
    by blast
  from validate_calls(3) [of pre r st np False s1] *(2)
  have "deeper_calls st s1 (length np)" by simp
  moreover from validate_calls(1) [of t s1 "Some np" True s2] *(3)
  have "deeper_calls s1 s2 (length np)" by simp
  ultimately have "deeper_calls st s2 (length np)" by (rule deeper_calls_trans)
  then obtain nested where n: "fulfill_calls s2 = fulfill_calls st @ nested"
    "\<forall>(i, nm, q)\<in>set nested. length np < length q"
    unfolding deeper_calls_def by blast
  have log: "fulfill_calls st' = fulfill_calls st @ nested @ [(pid p, name r, np)]"
    using *(4) n(1) by (simp add: call_fulfill_def)
  have stop: "\<forall>post'. validate_candidates (pre @ (p, t) # post') r st np = Inr (True, st')"
    using validate_candidates_prefix [OF *(2)] *(3,4) by simp
  from * log n(2) stop
  show "\<exists>pre p t post s1 s2 nested.
           cands = pre @ (p, t) # post \<and>
           validate_candidates pre r st np = Inr (False, s1) \<and>
           validate_dependencies t s1 (Some np) = Inr (True, s2) \<and>
           st' = call_fulfill p r np s2 \<and>
           fulfill_calls st' = fulfill_calls st @ nested @ [(pid p, name r, np)] \<and>
           (\<forall>(i, nm, q)\<in>set nested. length np < length q) \<and>
           (\<forall>post'. validate_candidates (pre @ (p, t) # post') r st np = Inr (True, st'))"
    by blast
next
  assume run: "validate_candidates cands r st np = Inr (False, st')"
  from validate_calls(3) [of cands r st np False st'] run
  show "deeper_calls st st' (length np)" by simp
  from run validate_candidates_all_fail
  show "\<forall>pre p t post. cands = pre @ (p, t) # post \<longrightarrow>
           (\<exists>s1 s2. validate_candidates pre r st np = Inr (False, s1) \<and>
              validate_dependencies t s1 (Some np) = Inr (False, s2))"
    by blast
qed


text \<open>States, candidates and requirements used to run the validation on concrete data.\<close>

definition st_empty :: vstate where
  "st_empty = \<lparr>ctx = \<lparr>config = Map.empty\<rparr>, fulfill_calls = []\<rparr>"

definition st_committed :: vstate where
  "st_committed =
     \<lparr>ctx = \<lparr>config = [''.layer'' \<mapsto> StrV ''c'']\<rparr>,
      fulfill_calls = [(5, ''layer'', ''.layer'')]\<rparr>"

definition cands_b_c :: candidates where
  "cands_b_c =
     [(P_b, RequirementTreeList [RequirementTreeReq R_plain]), (P_c, RequirementTreeList [])]"

definition R_hint :: requirement where
  "R_hint =
     \<lparr>name = ''hint'', optional = True, constraints = None,
      validate = (\<lambda>v c. Some ValidationError)\<rparr>"

lemmas run_defs = st_empty_def st_committed_def cands_b_c_def R_hint_def R_plain_def
  R_os_linux_def P_b_def P_c_def CONFIG_SEPARATOR_def call_fulfill_def check_fails_def
  value_check_def

theorem validate_choice_commits_first_valid_candidate_witness:
  "\<not> optional R_os_linux
   \<and> validate_candidates cands_b_c R_os_linux st_empty ''.layer'' = Inr (True, st_committed)
   \<and> validate_children [RequirementTreeChoice R_os_linux cands_b_c, RequirementTreeReq R_hint]
        st_empty [] =
      validate_children [RequirementTreeReq R_os_linux, RequirementTreeReq R_hint]
        st_committed []
   \<and> (\<exists>pre p t post s1 s2 nested.
         cands_b_c = pre @ (p, t) # post \<and>
         validate_candidates pre R_os_linux st_empty ''.layer'' = Inr (False, s1) \<and>
         validate_dependencies t s1 (Some ''.layer'') = Inr (True, s2) \<and>
         st_committed = call_fulfill p R_os_linux ''.layer'' s2 \<and>
         fulfill_calls st_committed =
           fulfill_calls st_empty @ nested @ [(pid p, name R_os_linux, ''.layer'')])
   \<and> validate_candidates [(P_b, RequirementTreeList [RequirementTreeReq R_plain])]
        R_os_linux st_empty ''.layer'' = Inr (False, st_empty)
   \<and> validate_children
        [RequirementTreeChoice R_os_linux
           [(P_b, RequirementTreeList [RequirementTreeReq R_plain])],
         RequirementTreeReq R_hint] st_empty [] = Inr (False, st_empty)
   \<and> deeper_calls st_empty st_empty (length ''.layer'')"
proof -
  have h0: "\<not> optional R_os_linux" by (simp add: R_os_linux_def)
  have np: "[] @ CONFIG_SEPARATOR @ name R_os_linux = ''.layer''"
    by (simp add: run_defs)
  have h1: "validate_candidates cands_b_c R_os_linux st_empty ''.layer'' = Inr (True, st_committed)"
    by (simp add: run_defs)
  have h2: "validate_candidates [(P_b, RequirementTreeList [RequirementTreeReq R_plain])]
        R_os_linux st_empty ''.layer'' = Inr (False, st_empty)"
    by (simp add: run_defs)
  note A = validate_choice_commits_first_valid_candidate
    [where r = R_os_linux and cands = cands_b_c and st = st_empty and path = "[]"
      and rest = "[RequirementTreeReq R_hint]" and np = "''.layer''" and st' = st_committed]
  note B = validate_choice_commits_first_valid_candidate
    [where r = R_os_linux and cands = "[(P_b, RequirementTreeList [RequirementTreeReq R_plain])]"
      and st = st_empty and path = "[]"
      and rest = "[RequirementTreeReq R_hint]" and np = "''.layer''" and st' = st_empty]
  from A h0 h1 np
  have a1: "validate_children [RequirementTreeChoice R_os_linux cands_b_c, RequirementTreeReq R_hint]
        st_empty [] =
      validate_children [RequirementTreeReq R_os_linux, RequirementTreeReq R_hint]
        st_committed []"
    by simp
  from A h1
  have a2: "\<exists>pre p t post s1 s2 nested.
         cands_b_c = pre @ (p, t) # post \<and>
         validate_candidates pre R_os_linux st_empty ''.layer'' = Inr (False, s1) \<and>
         validate_dependencies t s1 (Some ''.layer'') = Inr (True, s2) \<and>
         st_committed = call_fulfill p R_os_linux ''.layer'' s2 \<and>
         fulfill_calls st_committed =
           fulfill_calls st_empty @ nested @ [(pid p, name R_os_linux, ''.layer'')]"
    by blast
  from B h0 h2 np
  have b1: "validate_children
        [RequirementTreeChoice R_os_linux
           [(P_b, RequirementTreeList [RequirementTreeReq R_plain])],
         RequirementTreeReq R_hint] st_empty [] = Inr (False, st_empty)"
    by simp
  from B h2 have b2: "deeper_calls st_empty st_empty (length ''.layer'')" by blast
  from h0 h1 a1 a2 h2 b1 b2 show ?thesis by (intro conjI)
qed

lemma validate_no_exception:
  "is_deptree t \<longrightarrow> (\<exists>b st'. validate_dependencies t st popt = Inr (b, st'))"
  "(\<forall>c\<in>set cs. is_node c) \<longrightarrow> (\<exists>b st'. validate_children cs st path = Inr (b, st'))"
  "(\<forall>t\<in>snd ` set cands. is_deptree t) \<longrightarrow>
     (\<exists>b st'. validate_candidates cands r st np = Inr (b, st'))"
proof (induction t st popt and cs st path and cands r st np
    rule: validate_dependencies_validate_children_validate_candidates.induct)
  case (1 children st path)
  then show ?case by simp
next
  case (2 r st path)
  show ?case by simp
next
  case (3 r cands st path)
  show ?case by simp
next
  case (4 st path)
  show ?case by auto
next
  case (5 cs rest st path)
  show ?case by simp
next
  case (6 r rest st path)
  show ?case
  proof (cases "check_fails r (ctx st) (path @ CONFIG_SEPARATOR @ name r)")
    case True
    then show ?thesis by auto
  next
    case False
    with 6 [OF refl False] show ?thesis by auto
  qed
next
  case (7 r cands rest st path)
  let ?np = "path @ CONFIG_SEPARATOR @ name r"
  show ?case
  proof (intro impI)
    assume wf: "\<forall>c\<in>set (RequirementTreeChoice r cands # rest). is_node c"
    define sel where "sel = (if \<not> optional r then validate_candidates cands r st ?np
            else Inr (True, st))"
    have "\<exists>b1 s1. sel = Inr (b1, s1)"
    proof (cases "optional r")
      case True
      then have "sel = Inr (True, st)" by (simp add: sel_def)
      then show ?thesis by blast
    next
      case False
      with 7(1) [OF refl False] wf show ?thesis by (simp add: sel_def)
    qed
    then obtain b1 s1 where sel: "sel = Inr (b1, s1)" by blast
    show "\<exists>b st'. validate_children (RequirementTreeChoice r cands # rest) st path = Inr (b, st')"
    proof (cases "b1 \<and> \<not> check_fails r (ctx s1) ?np")
      case False
      with sel show ?thesis by (cases b1) (auto simp: sel_def [symmetric] Let_def)
    next
      case True
      then have b1: b1 and cf: "\<not> check_fails r (ctx s1) ?np" by simp_all
      from 7(2) [OF refl sel [unfolded sel_def] refl _ cf] b1 wf
      have "\<exists>b st'. validate_children rest s1 path = Inr (b, st')" by simp
      with sel b1 cf show ?thesis by (simp add: sel_def [symmetric] Let_def)
    qed
  qed
next
  case (8 r st node_path)
  show ?case by auto
next
  case (9 provider subtree cands r st node_path)
  show ?case
  proof (intro impI)
    assume wf: "\<forall>t\<in>snd ` set ((provider, subtree) # cands). is_deptree t"
    with 9(1) obtain b1 s1 where
      sub: "validate_dependencies subtree st (Some node_path) = Inr (b1, s1)" by auto
    show "\<exists>b st'. validate_candidates ((provider, subtree) # cands) r st node_path = Inr (b, st')"
    proof (cases b1)
      case True
      with sub show ?thesis by auto
    next
      case False
      from 9(2) [OF sub refl] False wf
      have "\<exists>b st'. validate_candidates cands r s1 node_path = Inr (b, st')" by simp
      with sub False show ?thesis by simp
    qed
  qed
qed


text \<open>
  C5.  When reading the stored value or the requirement's \<^verbatim>\<open>validate\<close> raises (a missing
  value, a type mismatch or a rejection), a leaf or choice whose requirement is optional
  counts as passed and the loop goes on with the next sibling, while for a requirement that
  is not optional the answer is false with the state as it is, the remaining siblings
  untouched.  On every tree without a missing attribute the validation returns a boolean:
  none of these exceptions escapes.
\<close>

theorem validate_value_failure_is_caught:
  "(value_check r (ctx st) (path @ CONFIG_SEPARATOR @ name r) = Some e \<longrightarrow>
      validate_children (RequirementTreeReq r # rest) st path =
        (if optional r then validate_children rest st path else Inr (False, st)))
   \<and> (optional r \<and> value_check r (ctx st) (path @ CONFIG_SEPARATOR @ name r) = Some e \<longrightarrow>
        validate_children (RequirementTreeChoice r cands # rest) st path =
          validate_children rest st path)
   \<and> (\<not> optional r \<and>
        validate_candidates cands r st (path @ CONFIG_SEPARATOR @ name r) = Inr (True, stc) \<and>
        value_check r (ctx stc) (path @ CONFIG_SEPARATOR @ name r) = Some e \<longrightarrow>
        validate_children (RequirementTreeChoice r cands # rest) st path = Inr (False, stc))
   \<and> (is_deptree t \<longrightarrow> (\<exists>b st'. validate_dependencies t st popt = Inr (b, st')))"
proof (intro conjI impI)
  assume "value_check r (ctx st) (path @ CONFIG_SEPARATOR @ name r) = Some e"
  then show "validate_children (RequirementTreeReq r # rest) st path =
        (if optional r then validate_children rest st path else Inr (False, st))"
    by (simp add: check_fails_def)
next
  assume "optional r \<and> value_check r (ctx st) (path @ CONFIG_SEPARATOR @ name r) = Some e"
  then show "validate_children (RequirementTreeChoice r cands # rest) st path =
          validate_children rest st path"
    by (simp add: check_fails_def)
next
  assume "\<not> optional r \<and>
        validate_candidates cands r st (path @ CONFIG_SEPARATOR @ name r) = Inr (True, stc) \<and>
        value_check r (ctx stc) (path @ CONFIG_SEPARATOR @ name r) = Some e"
  then show "validate_children (RequirementTreeChoice r cands # rest) st path = Inr (False, stc)"
    by (simp add: check_fails_def)
next
  assume "is_deptree t"
  with validate_no_exception(1) [of t st popt]
  show "\<exists>b st'. validate_dependencies t st popt = Inr (b, st')" by simp
qed

definition R_layer_int :: requirement where
  "R_layer_int =
     \<lparr>name = ''layer'', optional = False, constraints = Some [(''os'', Single ''linux'')],
      validate = (\<lambda>v c. case v of IntV i \<Rightarrow> None | _ \<Rightarrow> Some TypeError)\<rparr>"

definition st_hint :: vstate where
  "st_hint = \<lparr>ctx = \<lparr>config = [''.hint'' \<mapsto> IntV 1]\<rparr>, fulfill_calls = []\<rparr>"

theorem validate_value_failure_is_caught_witness:
  "value_check R_plain (ctx st_empty) ''.offset'' = Some KeyError
   \<and> validate_dependencies
        (RequirementTreeList
           [RequirementTreeReq R_plain, RequirementTreeChoice R_os_linux cands_b_c])
        st_empty None = Inr (False, st_empty)
   \<and> value_check R_hint (ctx st_hint) ''.hint'' = Some ValidationError
   \<and> validate_dependencies
        (RequirementTreeList [RequirementTreeReq R_hint]) st_hint None = Inr (True, st_hint)
   \<and> validate_dependencies
        (RequirementTreeList [RequirementTreeChoice R_hint cands_b_c]) st_hint None =
      Inr (True, st_hint)
   \<and> value_check R_layer_int (ctx st_committed) ''.layer'' = Some TypeError
   \<and> validate_dependencies
        (RequirementTreeList
           [RequirementTreeChoice R_layer_int cands_b_c, RequirementTreeReq R_hint])
        st_empty None = Inr (False, st_committed)
   \<and> is_deptree (RequirementTreeList
        [RequirementTreeChoice R_layer_int cands_b_c, RequirementTreeReq R_hint])"
proof -
  have p1: "[] @ CONFIG_SEPARATOR @ name R_plain = ''.offset''"
    and p2: "[] @ CONFIG_SEPARATOR @ name R_hint = ''.hint''"
    and p3: "[] @ CONFIG_SEPARATOR @ name R_layer_int = ''.layer''"
    by (simp_all add: run_defs R_layer_int_def)
  have v1: "value_check R_plain (ctx st_empty) ''.offset'' = Some KeyError"
    by (simp add: run_defs)
  have v2: "value_check R_hint (ctx st_hint) ''.hint'' = Some ValidationError"
    by (simp add: run_defs st_hint_def)
  have v3: "value_check R_layer_int (ctx st_committed) ''.layer'' = Some TypeError"
    by (simp add: run_defs R_layer_int_def)
  have o1: "\<not> optional R_plain" and o2: "optional R_hint" and o3: "\<not> optional R_layer_int"
    by (simp_all add: run_defs R_layer_int_def)
  have c3: "validate_candidates cands_b_c R_layer_int st_empty ''.layer'' =
              Inr (True, st_committed)"
    by (simp add: run_defs R_layer_int_def)
  have wf: "is_deptree (RequirementTreeList
        [RequirementTreeChoice R_layer_int cands_b_c, RequirementTreeReq R_hint])"
    by (simp add: cands_b_c_def)
  note T1 = validate_value_failure_is_caught
    [where r = R_plain and st = st_empty and path = "[]" and e = KeyError
      and rest = "[RequirementTreeChoice R_os_linux cands_b_c]"
      and t = "RequirementTreeList
        [RequirementTreeChoice R_layer_int cands_b_c, RequirementTreeReq R_hint]"]
  note T2 = validate_value_failure_is_caught
    [where r = R_hint and st = st_hint and path = "[]" and e = ValidationError
      and rest = "[]" and cands = cands_b_c]
  note T3 = validate_value_failure_is_caught
    [where r = R_layer_int and st = st_empty and path = "[]" and e = TypeError
      and rest = "[RequirementTreeReq R_hint]" and cands = cands_b_c and stc = st_committed]
  from T1 v1 o1 p1
  have r1: "validate_dependencies
        (RequirementTreeList
           [RequirementTreeReq R_plain, RequirementTreeChoice R_os_linux cands_b_c])
        st_empty None = Inr (False, st_empty)"
    by simp
  from T2 v2 o2 p2
  have r2: "validate_dependencies
        (RequirementTreeList [RequirementTreeReq R_hint]) st_hint None = Inr (True, st_hint)"
    and r2': "validate_dependencies
        (RequirementTreeList [RequirementTreeChoice R_hint cands_b_c]) st_hint None =
      Inr (True, st_hint)"
    by simp_all
  from T3 v3 o3 p3 c3
  have r3: "validate_dependencies
        (RequirementTreeList
           [RequirementTreeChoice R_layer_int cands_b_c, RequirementTreeReq R_hint])
        st_empty None = Inr (False, st_committed)"
    by simp
  from v1 r1 v2 r2 r2' v3 r3 wf show ?thesis by (intro conjI)
qed

section \<open>The visitor protocol\<close>

text \<open>
  A visitor object: its three hooks, each taking the node and the visitor's own state
  \<open>'s\<close> and either raising or returning a boolean and the new state.
\<close>

record 's TreeVisitor =
  visit_enter :: "tree \<Rightarrow> 's \<Rightarrow> error + bool \<times> 's"
  visit_leave :: "tree \<Rightarrow> 's \<Rightarrow> error + bool \<times> 's"
  visit :: "tree \<Rightarrow> 's \<Rightarrow> error + bool \<times> 's"


text \<open>
  The \<^verbatim>\<open>accept\<close> methods: the one of \<^verbatim>\<open>RequirementTreeNode\<close>, inherited by the leaf,
  and those of the choice and the list, with their loops \<open>accept_candidates\<close> and
  \<open>accept_children\<close>, which stop at the first child whose result is false.

  Modelled from the spec: the loops call \<^verbatim>\<open>apply(visitor)\<close> on the child, a method that no
  class of the file at hand defines (the base class \<^verbatim>\<open>validity.ValidityRoutines\<close> is not
  part of the source).  The spec describes the traversal as every node running its own
  enter hook, children and leave hook, so \<^verbatim>\<open>apply\<close> is taken to be the child's
  \<^verbatim>\<open>accept\<close>.
\<close>

fun accept :: "'s TreeVisitor \<Rightarrow> tree \<Rightarrow> 's \<Rightarrow> error + bool \<times> 's"
and accept_children :: "'s TreeVisitor \<Rightarrow> tree list \<Rightarrow> 's \<Rightarrow> error + 's"
and accept_candidates :: "'s TreeVisitor \<Rightarrow> candidates \<Rightarrow> 's \<Rightarrow> error + 's"
where
  "accept visitor (RequirementTreeReq r) s = visit visitor (RequirementTreeReq r) s"
| "accept visitor (RequirementTreeChoice r cands) s =
     (case visit_enter visitor (RequirementTreeChoice r cands) s of
        Inl e \<Rightarrow> Inl e
      | Inr (enter, s') \<Rightarrow>
          (case (if enter then accept_candidates visitor cands s' else Inr s') of
             Inl e \<Rightarrow> Inl e
           | Inr s'' \<Rightarrow> visit_leave visitor (RequirementTreeChoice r cands) s''))"
| "accept visitor (RequirementTreeList children) s =
     (case visit_enter visitor (RequirementTreeList children) s of
        Inl e \<Rightarrow> Inl e
      | Inr (enter, s') \<Rightarrow>
          (case (if enter then accept_children visitor children s' else Inr s') of
             Inl e \<Rightarrow> Inl e
           | Inr s'' \<Rightarrow> visit_leave visitor (RequirementTreeList children) s''))"
| "accept_children visitor [] s = Inr s"
| "accept_children visitor (candidate # rest) s =
     (case accept visitor candidate s of
        Inl e \<Rightarrow> Inl e
      | Inr (continue, s') \<Rightarrow>
          if \<not> continue then Inr s' else accept_children visitor rest s')"
| "accept_candidates visitor [] s = Inr s"
| "accept_candidates visitor ((candidate, subtree) # rest) s =
     (case accept visitor subtree s of
        Inl e \<Rightarrow> Inl e
      | Inr (continue, s') \<Rightarrow>
          if \<not> continue then Inr s' else accept_candidates visitor rest s')"

text \<open>
  \<^verbatim>\<open>ValidateDependenciesVisitor(context, node_path)\<close>.  Its \<^verbatim>\<open>visit\<close> reads
  \<^verbatim>\<open>node.requirement\<close> inside the \<^verbatim>\<open>try\<close> statement and again in the handler; on a
  list node, which has no such attribute, the second read raises \<^verbatim>\<open>AttributeError\<close> out
  of the handler.  \<^verbatim>\<open>visit_leave\<close> calls \<^verbatim>\<open>visit\<close>.  The path is the one given to the
  constructor, for every node.
\<close>

definition ValidateDependenciesVisitor :: "Context \<Rightarrow> string option \<Rightarrow> 's TreeVisitor" where
  "ValidateDependenciesVisitor c node_path =
     (let node_path = (case node_path of None \<Rightarrow> [] | Some p \<Rightarrow> p);
          visit_body = (\<lambda>node s.
            case node of
              RequirementTreeList children \<Rightarrow> Inl AttributeError
            | RequirementTreeReq r \<Rightarrow> Inr (\<not> check_fails r c node_path, s)
            | RequirementTreeChoice r cands \<Rightarrow> Inr (\<not> check_fails r c node_path, s))
      in \<lparr>visit_enter = (\<lambda>node s. Inr (True, s)),
          visit_leave = visit_body,
          visit = visit_body\<rparr>)"




section \<open>Properties of the traversal\<close>




text \<open>
  C9.  On the empty list \<open>validate_dependencies\<close> returns true, while the traversal with
  \<open>ValidateDependenciesVisitor\<close> built from the same context and path raises
  \<^verbatim>\<open>AttributeError\<close>; indeed that traversal raises on every list node.
\<close>

theorem ValidateDependenciesVisitor_raises_on_lists:
  "validate_dependencies (RequirementTreeList []) st path = Inr (True, st)
   \<and> accept (ValidateDependenciesVisitor (ctx st) path) (RequirementTreeList []) s =
       Inl AttributeError
   \<and> (\<exists>e. accept (ValidateDependenciesVisitor c path) (RequirementTreeList children) s = Inl e)"
  by (auto simp: ValidateDependenciesVisitor_def Let_def split: sum.splits)


section \<open>Constructing a choice node\<close>

text \<open>
  \<^verbatim>\<open>RequirementTreeReq.__init__\<close>: the requirement is of the checked type, so the
  check passes.
\<close>

definition RequirementTreeReq_init :: "requirement \<Rightarrow> error + tree" where
  "RequirementTreeReq_init requirement = Inr (RequirementTreeReq requirement)"

text \<open>
  The loop \<^verbatim>\<open>for k in candidates\<close> of \<^verbatim>\<open>RequirementTreeChoice.__init__\<close> on a dictionary:
  every key is a provider, every value has to be a list node.
\<close>

fun check_candidates :: "candidates \<Rightarrow> error option" where
  "check_candidates [] = None"
| "check_candidates ((k, subtree) # rest) =
     (case subtree of
        RequirementTreeList children \<Rightarrow> check_candidates rest
      | _ \<Rightarrow> Some CheckFailed)"

text \<open>
  The same loop on the argument as passed: iterating \<^verbatim>\<open>None\<close> raises \<^verbatim>\<open>TypeError\<close>.
\<close>

definition iterate_candidates :: "candidates option \<Rightarrow> error option" where
  "iterate_candidates candidates =
     (case candidates of
        None \<Rightarrow> Some TypeError
      | Some items \<Rightarrow> check_candidates items)"

text \<open>
  The constructor: the initialiser of the leaf class, the loop, then the two assignments
  to \<^verbatim>\<open>self.candidates\<close>, the second one being the fallback for \<^verbatim>\<open>None\<close>.
\<close>

definition RequirementTreeChoice_init :: "requirement \<Rightarrow> candidates option \<Rightarrow> error + tree" where
  "RequirementTreeChoice_init requirement candidates =
     (case RequirementTreeReq_init requirement of
        Inl e \<Rightarrow> Inl e
      | Inr leaf \<Rightarrow>
          (case iterate_candidates candidates of
             Some e \<Rightarrow> Inl e
           | None \<Rightarrow>
               Inr (RequirementTreeChoice requirement
                      (case candidates of None \<Rightarrow> [] | Some items \<Rightarrow> items))))"

text \<open>
  C10.  With \<open>candidates = None\<close> the constructor raises \<^verbatim>\<open>TypeError\<close>, from the loop and
  so before the fallback; hence a choice node that was constructed got a dictionary, and
  its candidates are that dictionary, never the empty fallback.
\<close>

theorem RequirementTreeChoice_init_None_raises:
  "RequirementTreeChoice_init r None = Inl TypeError
   \<and> (RequirementTreeChoice_init r candidates = Inr t \<longrightarrow>
        (\<exists>items. candidates = Some items \<and> t = RequirementTreeChoice r items))"
  by (auto simp: RequirementTreeChoice_init_def RequirementTreeReq_init_def
      iterate_candidates_def split: option.splits)

theorem RequirementTreeChoice_init_None_raises_witness:
  "RequirementTreeChoice_init R_os_linux None = Inl TypeError
   \<and> RequirementTreeChoice_init R_os_linux (Some cands_b_c) =
       Inr (RequirementTreeChoice R_os_linux cands_b_c)
   \<and> (\<exists>items. Some cands_b_c = Some items \<and>
         RequirementTreeChoice R_os_linux cands_b_c = RequirementTreeChoice R_os_linux items)"
proof -
  have run: "RequirementTreeChoice_init R_os_linux (Some cands_b_c) =
       Inr (RequirementTreeChoice R_os_linux cands_b_c)"
    by (simp add: RequirementTreeChoice_init_def RequirementTreeReq_init_def
        iterate_candidates_def cands_b_c_def)
  from RequirementTreeChoice_init_None_raises
    [where r = R_os_linux and candidates = "Some cands_b_c"
      and t = "RequirementTreeChoice R_os_linux cands_b_c"] run
  show ?thesis by blast
qed

end
